theory Spec2Isabelle
  imports Main "HOL-Library.Char_ord" "HOL-Library.List_Lexorder" "HOL-Library.Multiset"
begin

section \<open>FreeBencode: a shallow embedding of \<^verbatim>\<open>lib/util/bencode.py\<close>\<close>

text \<open>
  The module is Python 2: a \<^verbatim>\<open>str\<close> is a byte string, modelled as \<^typ>\<open>string\<close>
  (a list of 8-bit characters), and \<^verbatim>\<open>long\<close> is an unbounded integer, modelled
  as \<^typ>\<open>int\<close>. Strings are compared bytewise and lexicographically, which is the
  order \<^verbatim>\<open>Char_ord\<close> and \<^verbatim>\<open>List_Lexorder\<close> put on \<^typ>\<open>string\<close>.
  The module-level factories and type lists keep their default values
  (\<^verbatim>\<open>str\<close>, \<^verbatim>\<open>long\<close>, \<^verbatim>\<open>list\<close>, \<^verbatim>\<open>dict\<close>).
\<close>

subsection \<open>Values and exceptions\<close>

text \<open>
  Every exception the module raises itself is a \<^verbatim>\<open>BencodeError\<close> carrying a
  message; the other constructors are the built-in exceptions that the module's
  calls to \<^verbatim>\<open>long\<close>, to dictionary assignment, to dictionary lookup and to
  indexing can raise and that the module does not catch, and the
  \<^verbatim>\<open>RuntimeError\<close> with which the interpreter refuses a call when its
  recursion limit is reached.
\<close>

datatype exn = BencodeError string | ValueError | TypeError | KeyError | IndexError | RuntimeError

text \<open>
  A dictionary key is a hashable object. The decoder can only ever store an integer
  or a byte string as a key (a list or a dictionary is unhashable), so these are the
  two kinds of key of the model. A dictionary is an association list: the order of
  the entries stands for the arbitrary order in which \<^verbatim>\<open>keys()\<close> lists them.
\<close>

datatype key = KInt int | KStr string

text \<open>
  \<open>VInt\<close> stands for an instance of \<^verbatim>\<open>int\<close>, \<^verbatim>\<open>long\<close> or \<^verbatim>\<open>bool\<close> with the
  value \<^verbatim>\<open>long(obj)\<close>; \<open>VList\<close> for a list or tuple; \<open>VOther\<close> for an object that
  is an instance of none of the four type lists.
\<close>

datatype val = VInt int | VStr string | VList "val list" | VDict "(key \<times> val) list" | VOther

subsection \<open>Built-ins of the language the module calls\<close>

definition isdigit :: "char \<Rightarrow> bool" where
  "isdigit c = (CHR ''0'' \<le> c \<and> c \<le> CHR ''9'')"

definition isspace :: "char \<Rightarrow> bool" where
  "isspace c = (c \<in> set [CHR 0x20, CHR 0x09, CHR 0x0A, CHR 0x0B, CHR 0x0C, CHR 0x0D])"

text \<open>
  \<^verbatim>\<open>s.partition(sep)\<close> for a one-byte separator: the part before the first
  occurrence, the separator, the part after it; or \<^verbatim>\<open>(s, "", "")\<close> when the
  separator does not occur.
\<close>

definition str_partition :: "char \<Rightarrow> string \<Rightarrow> string \<times> string \<times> string" where
  "str_partition sep s =
     (if sep \<in> set s
      then (takeWhile (\<lambda>c. c \<noteq> sep) s, [sep], tl (dropWhile (\<lambda>c. c \<noteq> sep) s))
      else (s, [], []))"

definition digit_val :: "char \<Rightarrow> nat" where
  "digit_val c = of_char c - 48"

definition digits_value :: "string \<Rightarrow> nat" where
  "digits_value ds = foldl (\<lambda>a c. 10 * a + digit_val c) 0 ds"

text \<open>
  \<^verbatim>\<open>int(s)\<close> and \<^verbatim>\<open>long(s)\<close> on a string, base 10: optional leading
  whitespace, an optional sign, optional whitespace again, a non-empty run of
  digits, for \<^verbatim>\<open>long\<close> an optional \<^verbatim>\<open>L\<close> or \<^verbatim>\<open>l\<close>, and optional
  trailing whitespace. \<open>None\<close> is the \<^verbatim>\<open>ValueError\<close> raised on anything else.
\<close>

definition py_parse :: "bool \<Rightarrow> string \<Rightarrow> int option" where
  "py_parse long_suffix s =
     (let s1 = dropWhile isspace s;
          neg = (s1 \<noteq> [] \<and> hd s1 = CHR ''-'');
          s2 = dropWhile isspace
                 (if s1 \<noteq> [] \<and> (hd s1 = CHR ''+'' \<or> hd s1 = CHR ''-'') then tl s1 else s1);
          ds = takeWhile isdigit s2;
          s3 = dropWhile isdigit s2;
          s4 = (if long_suffix \<and> s3 \<noteq> [] \<and> (hd s3 = CHR ''L'' \<or> hd s3 = CHR ''l'')
                then tl s3 else s3);
          s5 = dropWhile isspace s4
      in if ds = [] \<or> s5 \<noteq> [] then None
         else Some (if neg then - int (digits_value ds) else int (digits_value ds)))"

definition py_long :: "string \<Rightarrow> int option" where
  "py_long s = py_parse True s"

definition py_int :: "string \<Rightarrow> int option" where
  "py_int s = py_parse False s"

text \<open>The format specifications \<^verbatim>\<open>{0:-d}\<close> and \<^verbatim>\<open>{0:d}\<close>: decimal digits, with a
  minus sign for a negative number.\<close>

definition digit_char :: "nat \<Rightarrow> char" where
  "digit_char d = char_of (48 + d)"

fun digits :: "nat \<Rightarrow> string" where
  "digits n = (if n < 10 then [digit_char n] else digits (n div 10) @ [digit_char (n mod 10)])"

declare digits.simps [simp del]

definition format_d :: "int \<Rightarrow> string" where
  "format_d n = (if n < 0 then CHR ''-'' # digits (nat (- n)) else digits (nat n))"

text \<open>\<^verbatim>\<open>"".join(...)\<close> over a generator whose elements may raise: the first
  exception ends the evaluation.\<close>

fun join :: "(exn + string) list \<Rightarrow> exn + string" where
  "join [] = Inr []"
| "join (Inl e # rs) = Inl e"
| "join (Inr s # rs) = (case join rs of Inl e \<Rightarrow> Inl e | Inr t \<Rightarrow> Inr (s @ t))"

text \<open>\<^verbatim>\<open>str(k)\<close> of a key.\<close>

fun str_key :: "key \<Rightarrow> string" where
  "str_key (KStr s) = s"
| "str_key (KInt n) = format_d n"

text \<open>Hashing a decoded item for use as a key: a list or a dictionary is
  unhashable (\<^verbatim>\<open>TypeError\<close>).\<close>

fun hashable :: "val \<Rightarrow> key option" where
  "hashable (VInt n) = Some (KInt n)"
| "hashable (VStr s) = Some (KStr s)"
| "hashable v = None"

text \<open>\<^verbatim>\<open>result[k] = v\<close>: an existing key keeps its place and gets the new value.\<close>

fun setitem :: "(key \<times> val) list \<Rightarrow> key \<Rightarrow> val \<Rightarrow> (key \<times> val) list" where
  "setitem [] k v = [(k, v)]"
| "setitem ((k', v') # d) k v = (if k' = k then (k', v) # d else (k', v') # setitem d k v)"

subsection \<open>The encoder\<close>

definition bencode_int :: "int \<Rightarrow> string" where
  "bencode_int n = ''i'' @ format_d n @ ''e''"

definition bencode_str :: "string \<Rightarrow> string" where
  "bencode_str s = format_d (int (length s)) @ '':'' @ s"

lemma size_list_member: "x \<in> set xs \<Longrightarrow> f x \<le> size_list f xs"
  by (induction xs) auto

lemma size_map_of:
  "map_of d k = Some v \<Longrightarrow> f v \<le> size_list (size_prod (\<lambda>_. 0) f) d"
  by (induction d) (auto split: if_splits)

text \<open>
  \<open>bencode_dict\<close> lists the keys as strings, sorts them and looks every one of them
  up in the dictionary again, as a string: \<^verbatim>\<open>obj[k]\<close> raises \<^verbatim>\<open>KeyError\<close>
  when the dictionary has no such string key.
\<close>

function bencode :: "val \<Rightarrow> exn + string"
  and bencode_list :: "val list \<Rightarrow> exn + string"
  and bencode_dict :: "(key \<times> val) list \<Rightarrow> exn + string"
where
  "bencode (VInt n) = Inr (bencode_int n)"
| "bencode (VStr s) = Inr (bencode_str s)"
| "bencode (VList xs) = bencode_list xs"
| "bencode (VDict d) = bencode_dict d"
| "bencode VOther = Inl (BencodeError ''Cannot bencode object: unrecognized type.'')"
| "bencode_list xs =
     (case join (map bencode xs) of
        Inl e \<Rightarrow> Inl e
      | Inr body \<Rightarrow> Inr (''l'' @ body @ ''e''))"
| "bencode_dict d =
     (let keys = sort (map str_key (map fst d)) in
      case join (map (\<lambda>k. case map_of d (KStr k) of
                             None \<Rightarrow> Inl KeyError
                           | Some v \<Rightarrow> (case bencode v of
                                         Inl e \<Rightarrow> Inl e
                                       | Inr b \<Rightarrow> Inr (bencode_str k @ b))) keys) of
        Inl e \<Rightarrow> Inl e
      | Inr body \<Rightarrow> Inr (''d'' @ body @ ''e''))"
  by pat_completeness auto

termination
  apply (relation "measure (\<lambda>x. case x of Inl v \<Rightarrow> 2 * size v
     | Inr (Inl xs) \<Rightarrow> 2 * size_list size xs + 1
     | Inr (Inr d) \<Rightarrow> 2 * size_list (size_prod (\<lambda>_. 0) size) d + 1)")
     apply simp_all
   apply (metis size_list_member le_imp_less_Suc mult_le_mono2)
  apply (metis size_map_of le_imp_less_Suc mult_le_mono2)
  done

subsection \<open>The decoder\<close>

definition bdecode_int :: "string \<Rightarrow> exn + (val \<times> string)" where
  "bdecode_int s =
     (if length s \<le> 2 \<or> hd s \<noteq> CHR ''i''
      then Inl (BencodeError ''Invalid bencoded int: string does not start with i.'')
      else let parts = str_partition CHR ''e'' s in
        if snd (snd parts) = []
        then Inl (BencodeError ''Invalid bencoded int: string does not terminate.'')
        else (case py_long (tl (fst parts)) of
                None \<Rightarrow> Inl ValueError
              | Some n \<Rightarrow> Inr (VInt n, snd (snd parts))))"

definition bdecode_str :: "string \<Rightarrow> exn + (val \<times> string)" where
  "bdecode_str s =
     (let parts = str_partition CHR '':'' s in
      if snd (snd parts) = []
      then Inl (BencodeError ''Invalid bencoded string: string does not contain ':'.'')
      else (case py_int (fst parts) of
              None \<Rightarrow> Inl (BencodeError ''Invalid bencoded string: string length not an integer.'')
            | Some len \<Rightarrow>
                if len < 0
                then Inl (BencodeError ''Invalid bencoded string: negative length.'')
                else if int (length (snd (snd parts))) < len
                then Inl (BencodeError ''Invalid bencoded string: Too long length.'')
                else Inr (VStr (take (nat len) (snd (snd parts))),
                          drop (nat len) (snd (snd parts)))))"

text \<open>The loop of \<open>bdecode_dict\<close> over the even indices of \<open>items\<close>, whose length
  is even when the loop starts.\<close>

fun dict_fill :: "val list \<Rightarrow> (key \<times> val) list \<Rightarrow> exn + (key \<times> val) list" where
  "dict_fill (k # v # items) result =
     (case hashable k of
        None \<Rightarrow> Inl TypeError
      | Some k' \<Rightarrow> dict_fill items (setitem result k' v))"
| "dict_fill items result = Inr result"

text \<open>
  \<open>bdecode\<close>, \<open>bdecode_list\<close> and \<open>bdecode_dict\<close> call each other;
  \<open>bdecode_list_while\<close> is the \<^verbatim>\<open>while\<close> loop of \<open>bdecode_list\<close> with its two
  variables. \<open>bdecode_list\<close> and \<open>bdecode_dict\<close> return the Python list or
  dictionary they built, which \<open>bdecode\<close> returns as a value. Indexing the empty
  string (\<^verbatim>\<open>string[0]\<close>) raises \<^verbatim>\<open>IndexError\<close>. The \<^verbatim>\<open>except\<close> clause of
  \<open>bdecode_dict\<close> catches \<^verbatim>\<open>BencodeError\<close> only.
\<close>

function bdecode :: "string \<Rightarrow> exn + (val \<times> string)"
  and bdecode_list :: "string \<Rightarrow> exn + (val list \<times> string)"
  and bdecode_list_while :: "string \<Rightarrow> val list \<Rightarrow> exn + (val list \<times> string)"
  and bdecode_dict :: "string \<Rightarrow> exn + ((key \<times> val) list \<times> string)"
where
  "bdecode s =
     (if length s = 0 then Inl (BencodeError ''Invalid bencoded object: empty.'')
      else if hd s = CHR ''i'' then bdecode_int s
      else if hd s = CHR ''l'' then
        (case bdecode_list s of Inl e \<Rightarrow> Inl e | Inr (xs, r) \<Rightarrow> Inr (VList xs, r))
      else if hd s = CHR ''d'' then
        (case bdecode_dict s of Inl e \<Rightarrow> Inl e | Inr (d, r) \<Rightarrow> Inr (VDict d, r))
      else if isdigit (hd s) then bdecode_str s
      else Inl (BencodeError ''Invalid bencoded object: no type indicator.''))"
| "bdecode_list s =
     (if s = [] then Inl IndexError
      else if hd s \<noteq> CHR ''l''
      then Inl (BencodeError ''Invalid bencoded list: string does not start with 'l'.'')
      else (case bdecode_list_while (tl s) [] of
              Inl e \<Rightarrow> Inl e
            | Inr (result, leftovers) \<Rightarrow>
                if leftovers = []
                then Inl (BencodeError ''Invalid bencoded list: did not terminate with 'e'.'')
                else Inr (result, tl leftovers)))"
| "bdecode_list_while leftovers result =
     (if leftovers \<noteq> [] \<and> hd leftovers \<noteq> CHR ''e''
      then (case bdecode leftovers of
              Inl e \<Rightarrow> Inl e
            | Inr (v, rest) \<Rightarrow> bdecode_list_while rest (result @ [v]))
      else Inr (result, leftovers))"
| "bdecode_dict s =
     (if s = [] then Inl IndexError
      else if hd s \<noteq> CHR ''d''
      then Inl (BencodeError ''Invalid bencoded dict: string does not start with 'd'.'')
      else (case bdecode_list (CHR ''l'' # tl s) of
              Inl (BencodeError err) \<Rightarrow>
                Inl (BencodeError (''Error while decoding dict items as list:''
                                     @ [CHR 0x22] @ err @ [CHR 0x22]))
            | Inl e \<Rightarrow> Inl e
            | Inr (items, leftovers) \<Rightarrow>
                if length items mod 2 \<noteq> 0
                then Inl (BencodeError ''Invalid bencoded dict: odd number of items.'')
                else (case dict_fill items [] of
                        Inl e \<Rightarrow> Inl e
                      | Inr result \<Rightarrow> Inr (result, leftovers))))"
  by pat_completeness auto

text \<open>
  The loop calls itself on what the inner call of \<open>bdecode\<close> returned, so the
  termination of the four functions rests on a fact about their results: a
  successful parse returns a remainder shorter than its input. It is proved first
  for the arguments on which the functions are defined.
\<close>

lemma str_partition_rest_shorter:
  "snd (snd (str_partition sep s)) \<noteq> [] \<Longrightarrow> length (snd (snd (str_partition sep s))) < length s"
proof -
  have "length (dropWhile (\<lambda>c. c \<noteq> sep) s) \<le> length s"
    by (rule length_dropWhile_le)
  moreover assume "snd (snd (str_partition sep s)) \<noteq> []"
  ultimately show ?thesis
    by (cases "dropWhile (\<lambda>c. c \<noteq> sep) s") (auto simp: str_partition_def split: if_splits)
qed

lemma bdecode_int_shorter: "bdecode_int s = Inr (v, r) \<Longrightarrow> length r < length s"
  by (auto simp: bdecode_int_def Let_def str_partition_rest_shorter split: if_splits option.splits)

lemma bdecode_str_shorter: "bdecode_str s = Inr (v, r) \<Longrightarrow> length r < length s"
  using str_partition_rest_shorter [of "CHR '':''" s]
  by (auto simp: bdecode_str_def Let_def split: if_splits option.splits)

lemma bdecode_shorter_dom:
  "bdecode_bdecode_list_bdecode_list_while_bdecode_dict_dom (Inl (Inl s)) \<Longrightarrow>
     (\<forall>v r. bdecode s = Inr (v, r) \<longrightarrow> length r < length s)"
  "bdecode_bdecode_list_bdecode_list_while_bdecode_dict_dom (Inl (Inr s1)) \<Longrightarrow>
     (\<forall>xs r. bdecode_list s1 = Inr (xs, r) \<longrightarrow> length r < length s1)"
  "bdecode_bdecode_list_bdecode_list_while_bdecode_dict_dom (Inr (Inl (l, res))) \<Longrightarrow>
     (\<forall>xs r. bdecode_list_while l res = Inr (xs, r) \<longrightarrow> length r \<le> length l)"
  "bdecode_bdecode_list_bdecode_list_while_bdecode_dict_dom (Inr (Inr s2)) \<Longrightarrow>
     (\<forall>d r. bdecode_dict s2 = Inr (d, r) \<longrightarrow> length r < length s2)"
proof (induction s and s1 and l res and s2
       rule: bdecode_bdecode_list_bdecode_list_while_bdecode_dict.pinduct)
  case (1 s)
  then show ?case
    by (auto simp: bdecode.psimps bdecode_int_shorter bdecode_str_shorter
             split: if_splits sum.splits)
next
  case (2 s)
  then show ?case
    apply (simp add: bdecode_list.psimps split: if_splits sum.splits prod.splits)
    apply (cases s; fastforce)
    done
next
  case (3 leftovers result)
  then show ?case
    by (fastforce simp: bdecode_list_while.psimps split: if_splits sum.splits prod.splits)
next
  case (4 s)
  then show ?case
    by (cases s)
       (auto simp: bdecode_dict.psimps split: if_splits sum.splits prod.splits exn.splits)
qed

termination bdecode
  apply (relation "measure (\<lambda>x. case x of Inl (Inl s) \<Rightarrow> 4 * length s + 2
     | Inl (Inr s) \<Rightarrow> 4 * length s
     | Inr (Inl (s, r)) \<Rightarrow> 4 * length s + 3
     | Inr (Inr s) \<Rightarrow> 4 * length s + 1)")
      apply simp_all
   apply (case_tac s; simp)
  apply (auto dest: bdecode_shorter_dom(1))
  done

declare bdecode.simps [simp del] bdecode_list.simps [simp del]
  bdecode_list_while.simps [simp del] bdecode_dict.simps [simp del]
  bencode_list.simps [simp del] bencode_dict.simps [simp del]

subsection \<open>The decoder under the recursion limit of the interpreter\<close>

text \<open>
  The functions above describe the decoder as long as the interpreter grants every
  call. The interpreter refuses a call of a function of the module with a
  \<^verbatim>\<open>RuntimeError\<close> (maximum recursion depth exceeded) when no frame is left;
  nothing in the module catches it (the \<^verbatim>\<open>except\<close> clause of \<open>bdecode_dict\<close>
  is for \<^verbatim>\<open>BencodeError\<close>). In the functions below \<open>limit\<close> is the number of
  frames still available when the call is made: every call of a function of the
  module takes one, and the loop of \<open>bdecode_list\<close> runs in the frame of
  \<open>bdecode_list\<close>. What the interpreter counts for a call of a built-in is left
  out, so the limit at which a given buffer is refused is met up to a constant; the
  theorems on the nesting depth are stated without it. Apart from the test of
  \<open>limit\<close> the bodies are those of the functions above (\<open>bdecode_rl_agrees\<close>,
  \<open>bdecode_rl_enough\<close>).
\<close>

definition bdecode_int_rl :: "nat \<Rightarrow> string \<Rightarrow> exn + (val \<times> string)" where
  "bdecode_int_rl limit s = (if limit = 0 then Inl RuntimeError else bdecode_int s)"

definition bdecode_str_rl :: "nat \<Rightarrow> string \<Rightarrow> exn + (val \<times> string)" where
  "bdecode_str_rl limit s = (if limit = 0 then Inl RuntimeError else bdecode_str s)"

function bdecode_rl :: "nat \<Rightarrow> string \<Rightarrow> exn + (val \<times> string)"
  and bdecode_list_rl :: "nat \<Rightarrow> string \<Rightarrow> exn + (val list \<times> string)"
  and bdecode_list_while_rl :: "nat \<Rightarrow> string \<Rightarrow> val list \<Rightarrow> exn + (val list \<times> string)"
  and bdecode_dict_rl :: "nat \<Rightarrow> string \<Rightarrow> exn + ((key \<times> val) list \<times> string)"
where
  "bdecode_rl limit s =
     (if limit = 0 then Inl RuntimeError
      else if length s = 0 then Inl (BencodeError ''Invalid bencoded object: empty.'')
      else if hd s = CHR ''i'' then bdecode_int_rl (limit - 1) s
      else if hd s = CHR ''l'' then
        (case bdecode_list_rl (limit - 1) s of Inl e \<Rightarrow> Inl e | Inr (xs, r) \<Rightarrow> Inr (VList xs, r))
      else if hd s = CHR ''d'' then
        (case bdecode_dict_rl (limit - 1) s of Inl e \<Rightarrow> Inl e | Inr (d, r) \<Rightarrow> Inr (VDict d, r))
      else if isdigit (hd s) then bdecode_str_rl (limit - 1) s
      else Inl (BencodeError ''Invalid bencoded object: no type indicator.''))"
| "bdecode_list_rl limit s =
     (if limit = 0 then Inl RuntimeError
      else if s = [] then Inl IndexError
      else if hd s \<noteq> CHR ''l''
      then Inl (BencodeError ''Invalid bencoded list: string does not start with 'l'.'')
      else (case bdecode_list_while_rl (limit - 1) (tl s) [] of
              Inl e \<Rightarrow> Inl e
            | Inr (result, leftovers) \<Rightarrow>
                if leftovers = []
                then Inl (BencodeError ''Invalid bencoded list: did not terminate with 'e'.'')
                else Inr (result, tl leftovers)))"
| "bdecode_list_while_rl limit leftovers result =
     (if leftovers \<noteq> [] \<and> hd leftovers \<noteq> CHR ''e''
      then (case bdecode_rl limit leftovers of
              Inl e \<Rightarrow> Inl e
            | Inr (v, rest) \<Rightarrow> bdecode_list_while_rl limit rest (result @ [v]))
      else Inr (result, leftovers))"
| "bdecode_dict_rl limit s =
     (if limit = 0 then Inl RuntimeError
      else if s = [] then Inl IndexError
      else if hd s \<noteq> CHR ''d''
      then Inl (BencodeError ''Invalid bencoded dict: string does not start with 'd'.'')
      else (case bdecode_list_rl (limit - 1) (CHR ''l'' # tl s) of
              Inl (BencodeError err) \<Rightarrow>
                Inl (BencodeError (''Error while decoding dict items as list:''
                                     @ [CHR 0x22] @ err @ [CHR 0x22]))
            | Inl e \<Rightarrow> Inl e
            | Inr (items, leftovers) \<Rightarrow>
                if length items mod 2 \<noteq> 0
                then Inl (BencodeError ''Invalid bencoded dict: odd number of items.'')
                else (case dict_fill items [] of
                        Inl e \<Rightarrow> Inl e
                      | Inr result \<Rightarrow> Inr (result, leftovers))))"
  by pat_completeness auto

lemma bdecode_rl_shorter_dom:
  "bdecode_rl_bdecode_list_rl_bdecode_list_while_rl_bdecode_dict_rl_dom (Inl (Inl (limit, s))) \<Longrightarrow>
     (\<forall>v r. bdecode_rl limit s = Inr (v, r) \<longrightarrow> length r < length s)"
  "bdecode_rl_bdecode_list_rl_bdecode_list_while_rl_bdecode_dict_rl_dom (Inl (Inr (limit1, s1))) \<Longrightarrow>
     (\<forall>xs r. bdecode_list_rl limit1 s1 = Inr (xs, r) \<longrightarrow> length r < length s1)"
  "bdecode_rl_bdecode_list_rl_bdecode_list_while_rl_bdecode_dict_rl_dom (Inr (Inl (limit2, l, res))) \<Longrightarrow>
     (\<forall>xs r. bdecode_list_while_rl limit2 l res = Inr (xs, r) \<longrightarrow> length r \<le> length l)"
  "bdecode_rl_bdecode_list_rl_bdecode_list_while_rl_bdecode_dict_rl_dom (Inr (Inr (limit3, s2))) \<Longrightarrow>
     (\<forall>d r. bdecode_dict_rl limit3 s2 = Inr (d, r) \<longrightarrow> length r < length s2)"
proof (induction limit s and limit1 s1 and limit2 l res and limit3 s2
       rule: bdecode_rl_bdecode_list_rl_bdecode_list_while_rl_bdecode_dict_rl.pinduct)
  case (1 limit s)
  then show ?case
    by (auto simp: bdecode_rl.psimps bdecode_int_rl_def bdecode_str_rl_def
                   bdecode_int_shorter bdecode_str_shorter
             split: if_splits sum.splits)
next
  case (2 limit s)
  then show ?case
    apply (simp add: bdecode_list_rl.psimps split: if_splits sum.splits prod.splits)
    apply (cases s; fastforce)
    done
next
  case (3 limit leftovers result)
  then show ?case
    by (fastforce simp: bdecode_list_while_rl.psimps split: if_splits sum.splits prod.splits)
next
  case (4 limit s)
  then show ?case
    by (cases s)
       (auto simp: bdecode_dict_rl.psimps split: if_splits sum.splits prod.splits exn.splits)
qed

termination bdecode_rl
  apply (relation "inv_image (less_than <*lex*> less_than <*lex*> less_than)
     (\<lambda>x. case x of Inl (Inl (limit, s)) \<Rightarrow> (limit, length s, 0::nat)
        | Inl (Inr (limit, s)) \<Rightarrow> (limit, length s, 0)
        | Inr (Inl (limit, s, r)) \<Rightarrow> (limit, length s, 1)
        | Inr (Inr (limit, s)) \<Rightarrow> (limit, length s, 0))")
       apply simp_all
  apply (auto dest: bdecode_rl_shorter_dom(1))
  done


declare bdecode_rl.simps [simp del] bdecode_list_rl.simps [simp del]
  bdecode_list_while_rl.simps [simp del] bdecode_dict_rl.simps [simp del]

subsection \<open>Notions used to state the claims\<close>

text \<open>Lists nested \<open>n + 1\<close> deep around nothing, and the buffer that encodes them:
  \<open>n + 1\<close> bytes \<^verbatim>\<open>l\<close> followed by \<open>n + 1\<close> bytes \<^verbatim>\<open>e\<close>.\<close>

fun nest_list :: "nat \<Rightarrow> val" where
  "nest_list 0 = VList []"
| "nest_list (Suc n) = VList [nest_list n]"

definition nest_buffer :: "nat \<Rightarrow> string" where
  "nest_buffer n = replicate (Suc n) CHR ''l'' @ replicate (Suc n) CHR ''e''"

text \<open>The items of a decoded dictionary body at the even positions (the keys), and
  the key/value pairs the items form, in the order of the buffer.\<close>

fun keys_of :: "val list \<Rightarrow> val list" where
  "keys_of (k # v # items) = k # keys_of items"
| "keys_of items = []"

fun kv_pairs :: "val list \<Rightarrow> (key \<times> val) list" where
  "kv_pairs (k # v # items) =
     (case hashable k of None \<Rightarrow> kv_pairs items | Some k' \<Rightarrow> (k', v) # kv_pairs items)"
| "kv_pairs items = []"

text \<open>
  The values the round trip is about: built from integers, byte strings, lists and
  dictionaries whose keys are byte strings, no key twice.
\<close>

fun four_kinds :: "val \<Rightarrow> bool" where
  "four_kinds (VInt n) = True"
| "four_kinds (VStr s) = True"
| "four_kinds (VList xs) = (\<forall>x\<in>set xs. four_kinds x)"
| "four_kinds (VDict d) =
     (distinct (map fst d) \<and> (\<forall>kv\<in>set d. (\<exists>s. fst kv = KStr s) \<and> four_kinds (snd kv)))"
| "four_kinds VOther = False"

text \<open>
  \<open>canon v\<close> is \<open>v\<close> with the entries of every dictionary listed in the order of
  their keys: the same dictionary, since the order of an association list stands
  for nothing (\<open>canon_entries_lookup\<close> below).
\<close>

function canon :: "val \<Rightarrow> val" where
  "canon (VInt n) = VInt n"
| "canon (VStr s) = VStr s"
| "canon (VList xs) = VList (map canon xs)"
| "canon (VDict d) =
     VDict (map (\<lambda>k. (KStr k, case map_of d (KStr k) of None \<Rightarrow> VOther | Some v \<Rightarrow> canon v))
                (sort (map str_key (map fst d))))"
| "canon VOther = VOther"
  by pat_completeness auto

termination
  apply (relation "measure size")
    apply simp_all
   apply (metis size_list_member le_imp_less_Suc)
  apply (metis size_map_of le_imp_less_Suc)
  done

definition canon_entries :: "(key \<times> val) list \<Rightarrow> (key \<times> val) list" where
  "canon_entries d =
     map (\<lambda>k. (KStr k, case map_of d (KStr k) of None \<Rightarrow> VOther | Some v \<Rightarrow> canon v))
         (sort (map str_key (map fst d)))"

text \<open>One pass of the loop of \<open>bdecode_list\<close> over the text \<open>enc\<close>, followed by more
  input, appends \<open>items\<close> to the result.\<close>

definition step_ok :: "string \<Rightarrow> val list \<Rightarrow> bool" where
  "step_ok enc items =
     (\<forall>r acc. r \<noteq> [] \<longrightarrow> bdecode_list_while (enc @ r) acc = bdecode_list_while r (acc @ items))"

section \<open>Properties of the functions\<close>

subsection \<open>Splitting at a separator\<close>

lemma str_partition_found:
  "sep \<notin> set a \<Longrightarrow> str_partition sep (a @ sep # b) = (a, [sep], b)"
  by (induction a) (auto simp: str_partition_def)

lemma str_partition_concat:
  "snd (snd (str_partition sep s)) \<noteq> [] \<Longrightarrow>
     s = fst (str_partition sep s) @ sep # snd (snd (str_partition sep s))"
proof -
  assume a: "snd (snd (str_partition sep s)) \<noteq> []"
  then have m: "sep \<in> set s"
    by (auto simp: str_partition_def split: if_splits)
  then have "dropWhile (\<lambda>c. c \<noteq> sep) s \<noteq> []"
    by simp
  then have "dropWhile (\<lambda>c. c \<noteq> sep) s = sep # tl (dropWhile (\<lambda>c. c \<noteq> sep) s)"
    using hd_dropWhile [of "\<lambda>c. c \<noteq> sep" s] by (cases "dropWhile (\<lambda>c. c \<noteq> sep) s") auto
  then have "s = takeWhile (\<lambda>c. c \<noteq> sep) s @ sep # tl (dropWhile (\<lambda>c. c \<noteq> sep) s)"
    using takeWhile_dropWhile_id [of "\<lambda>c. c \<noteq> sep" s] by simp
  with m show ?thesis
    by (simp add: str_partition_def)
qed

subsection \<open>A successful parse returns a proper suffix of its input\<close>

lemma bdecode_int_suffix: "bdecode_int s = Inr (v, r) \<Longrightarrow> \<exists>p. p \<noteq> [] \<and> s = p @ r"
proof -
  assume a: "bdecode_int s = Inr (v, r)"
  then have r: "r = snd (snd (str_partition CHR ''e'' s))" and ne: "snd (snd (str_partition CHR ''e'' s)) \<noteq> []"
    by (auto simp: bdecode_int_def Let_def split: if_splits option.splits)
  from str_partition_concat [OF ne] r
  have "s = (fst (str_partition CHR ''e'' s) @ ''e'') @ r" by simp
  then show ?thesis by blast
qed

lemma bdecode_str_suffix: "bdecode_str s = Inr (v, r) \<Longrightarrow> \<exists>p. p \<noteq> [] \<and> s = p @ r"
proof -
  let ?p = "str_partition CHR '':'' s"
  assume a: "bdecode_str s = Inr (v, r)"
  then obtain n where r: "r = drop n (snd (snd ?p))" and ne: "snd (snd ?p) \<noteq> []"
    by (auto simp: bdecode_str_def Let_def split: if_splits option.splits)
  from str_partition_concat [OF ne]
  have "s = (fst ?p @ '':'' @ take n (snd (snd ?p))) @ r"
    by (simp add: r)
  then show ?thesis by blast
qed

lemma bdecode_suffix:
  "\<forall>v r. bdecode s = Inr (v, r) \<longrightarrow> (\<exists>p. p \<noteq> [] \<and> s = p @ r)"
  "\<forall>xs r. bdecode_list s1 = Inr (xs, r) \<longrightarrow> (\<exists>p. p \<noteq> [] \<and> s1 = p @ r)"
  "\<forall>xs r. bdecode_list_while l res = Inr (xs, r) \<longrightarrow> (\<exists>p. l = p @ r)"
  "\<forall>d r. bdecode_dict s2 = Inr (d, r) \<longrightarrow> (\<exists>p. p \<noteq> [] \<and> s2 = p @ r)"
proof (induction s and s1 and l res and s2
       rule: bdecode_bdecode_list_bdecode_list_while_bdecode_dict.induct)
  case (1 s)
  show ?case
  proof (intro allI impI)
    fix v r assume a: "bdecode s = Inr (v, r)"
    show "\<exists>p. p \<noteq> [] \<and> s = p @ r"
      using a 1 bdecode_int_suffix [of s v r] bdecode_str_suffix [of s v r]
      by (auto simp: bdecode.simps [of s] split: if_splits sum.splits)
  qed
next
  case (2 s)
  show ?case
  proof (intro allI impI)
    fix xs r assume a: "bdecode_list s = Inr (xs, r)"
    then obtain lo where w: "bdecode_list_while (tl s) [] = Inr (xs, lo)" and lo: "lo \<noteq> []" "r = tl lo"
      and s: "s \<noteq> []" "hd s = CHR ''l''"
      by (auto simp: bdecode_list.simps [of s] split: if_splits sum.splits)
    from 2 s w obtain p where "tl s = p @ lo" by blast
    with s lo have "s = (CHR ''l'' # p @ [hd lo]) @ r"
      by (cases s; cases lo) auto
    then show "\<exists>p. p \<noteq> [] \<and> s = p @ r" by blast
  qed
next
  case (3 leftovers result)
  show ?case
  proof (intro allI impI)
    fix xs r assume a: "bdecode_list_while leftovers result = Inr (xs, r)"
    show "\<exists>p. leftovers = p @ r"
    proof (cases "leftovers \<noteq> [] \<and> hd leftovers \<noteq> CHR ''e''")
      case True
      with a obtain v rest where b: "bdecode leftovers = Inr (v, rest)"
        and w: "bdecode_list_while rest (result @ [v]) = Inr (xs, r)"
        by (auto simp: bdecode_list_while.simps [of leftovers] split: sum.splits)
      from 3(1) True b obtain p where "leftovers = p @ rest" by blast
      moreover from 3(2) [OF True b refl] w obtain q where "rest = q @ r" by blast
      ultimately have "leftovers = (p @ q) @ r" by simp
      then show ?thesis by blast
    next
      case False
      with a have "r = leftovers"
        by (auto simp: bdecode_list_while.simps [of leftovers])
      then show ?thesis by simp
    qed
  qed
next
  case (4 s)
  show ?case
  proof (intro allI impI)
    fix d r assume a: "bdecode_dict s = Inr (d, r)"
    then obtain items where w: "bdecode_list (CHR ''l'' # tl s) = Inr (items, r)"
      and s: "s \<noteq> []" "hd s = CHR ''d''"
      by (auto simp: bdecode_dict.simps [of s] split: if_splits sum.splits exn.splits)
    from 4 s w obtain p where p: "p \<noteq> []" "CHR ''l'' # tl s = p @ r" by blast
    then have "s = (CHR ''d'' # tl p) @ r"
      using s by (cases s; cases p) auto
    then show "\<exists>p. p \<noteq> [] \<and> s = p @ r" by blast
  qed
qed

subsection \<open>The recursion limit\<close>

text \<open>
  Under a recursion limit the decoder raises \<^verbatim>\<open>RuntimeError\<close> or does what it
  does without the limit, and it does the latter whenever the limit is large
  enough. Lists nested \<open>n + 1\<close> deep take two frames a level.
\<close>

lemma bdecode_rl_agrees:
  "bdecode_rl limit s = Inl RuntimeError \<or> bdecode_rl limit s = bdecode s"
  "bdecode_list_rl limit1 s1 = Inl RuntimeError \<or> bdecode_list_rl limit1 s1 = bdecode_list s1"
  "bdecode_list_while_rl limit2 l res = Inl RuntimeError
     \<or> bdecode_list_while_rl limit2 l res = bdecode_list_while l res"
  "bdecode_dict_rl limit3 s2 = Inl RuntimeError \<or> bdecode_dict_rl limit3 s2 = bdecode_dict s2"
proof (induction limit s and limit1 s1 and limit2 l res and limit3 s2
       rule: bdecode_rl_bdecode_list_rl_bdecode_list_while_rl_bdecode_dict_rl.induct)
  case (1 limit s)
  show ?case
  proof (cases "limit = 0")
    case True
    then show ?thesis by (simp add: bdecode_rl.simps)
  next
    case False
    consider (e) "s = []" | (i) "s \<noteq> []" "hd s = CHR ''i''"
      | (l) "s \<noteq> []" "hd s \<noteq> CHR ''i''" "hd s = CHR ''l''"
      | (d) "s \<noteq> []" "hd s \<noteq> CHR ''i''" "hd s \<noteq> CHR ''l''" "hd s = CHR ''d''"
      | (o) "s \<noteq> []" "hd s \<noteq> CHR ''i''" "hd s \<noteq> CHR ''l''" "hd s \<noteq> CHR ''d''"
      by blast
    then show ?thesis
    proof cases
      case e
      with False show ?thesis by (simp add: bdecode_rl.simps bdecode.simps)
    next
      case i
      with False show ?thesis
        by (simp add: bdecode_rl.simps [of limit s] bdecode.simps [of s] bdecode_int_rl_def)
    next
      case l
      with False 1(1) have "bdecode_list_rl (limit - 1) s = Inl RuntimeError
          \<or> bdecode_list_rl (limit - 1) s = bdecode_list s"
        by simp
      with False l show ?thesis
        by (auto simp: bdecode_rl.simps [of limit s] bdecode.simps [of s])
    next
      case d
      with False 1(2) have "bdecode_dict_rl (limit - 1) s = Inl RuntimeError
          \<or> bdecode_dict_rl (limit - 1) s = bdecode_dict s"
        by simp
      with False d show ?thesis
        by (auto simp: bdecode_rl.simps [of limit s] bdecode.simps [of s])
    next
      case o
      with False show ?thesis
        by (simp add: bdecode_rl.simps [of limit s] bdecode.simps [of s] bdecode_str_rl_def)
    qed
  qed
next
  case (2 limit s)
  show ?case
  proof (cases "limit \<noteq> 0 \<and> s \<noteq> [] \<and> hd s = CHR ''l''")
    case True
    with 2 have "bdecode_list_while_rl (limit - 1) (tl s) [] = Inl RuntimeError
        \<or> bdecode_list_while_rl (limit - 1) (tl s) [] = bdecode_list_while (tl s) []"
      by simp
    with True show ?thesis
      by (auto simp: bdecode_list_rl.simps [of limit s] bdecode_list.simps [of s])
  next
    case False
    then show ?thesis
      by (auto simp: bdecode_list_rl.simps [of limit s] bdecode_list.simps [of s])
  qed
next
  case (3 limit leftovers result)
  show ?case
  proof (cases "leftovers \<noteq> [] \<and> hd leftovers \<noteq> CHR ''e''")
    case False
    then show ?thesis
      by (auto simp: bdecode_list_while_rl.simps [of limit leftovers]
                     bdecode_list_while.simps [of leftovers])
  next
    case True
    from 3(1) [OF True] consider (r) "bdecode_rl limit leftovers = Inl RuntimeError"
      | (s) "bdecode_rl limit leftovers = bdecode leftovers" by blast
    then show ?thesis
    proof cases
      case r
      with True show ?thesis
        by (simp add: bdecode_list_while_rl.simps [of limit leftovers])
    next
      case s
      show ?thesis
      proof (cases "bdecode leftovers")
        case (Inl e)
        with s True show ?thesis
          by (simp add: bdecode_list_while_rl.simps [of limit leftovers]
                        bdecode_list_while.simps [of leftovers])
      next
        case (Inr vr)
        obtain v rest where vr: "vr = (v, rest)" by (cases vr)
        with Inr s have b: "bdecode_rl limit leftovers = Inr (v, rest)" by simp
        from 3(2) [OF True b refl]
        have "bdecode_list_while_rl limit rest (result @ [v]) = Inl RuntimeError
            \<or> bdecode_list_while_rl limit rest (result @ [v]) = bdecode_list_while rest (result @ [v])" .
        with True b Inr vr show ?thesis
          by (auto simp: bdecode_list_while_rl.simps [of limit leftovers]
                         bdecode_list_while.simps [of leftovers])
      qed
    qed
  qed
next
  case (4 limit s)
  show ?case
  proof (cases "limit \<noteq> 0 \<and> s \<noteq> [] \<and> hd s = CHR ''d''")
    case True
    with 4 have "bdecode_list_rl (limit - 1) (CHR ''l'' # tl s) = Inl RuntimeError
        \<or> bdecode_list_rl (limit - 1) (CHR ''l'' # tl s) = bdecode_list (CHR ''l'' # tl s)"
      by simp
    with True show ?thesis
      by (auto simp: bdecode_dict_rl.simps [of limit s] bdecode_dict.simps [of s])
  next
    case False
    then show ?thesis
      by (auto simp: bdecode_dict_rl.simps [of limit s] bdecode_dict.simps [of s])
  qed
qed

lemma bdecode_rl_nested:
  "bdecode_rl limit (replicate (Suc n) CHR ''l'' @ replicate (Suc n) CHR ''e'' @ r)
     = (if 2 * Suc n \<le> limit then Inr (nest_list n, r) else Inl RuntimeError)"
proof (induction n arbitrary: limit r)
  case 0
  show ?case
    by (simp add: bdecode_rl.simps bdecode_list_rl.simps bdecode_list_while_rl.simps)
next
  case (Suc n)
  define inner where
    "inner = replicate (Suc n) CHR ''l'' @ replicate (Suc n) CHR ''e'' @ CHR ''e'' # r"
  have w: "bdecode_list_while_rl k inner []
          = (if 2 * Suc n \<le> k then Inr ([nest_list n], CHR ''e'' # r) else Inl RuntimeError)" for k
    unfolding inner_def using Suc [of k "CHR ''e'' # r"]
    by (simp add: bdecode_list_while_rl.simps [of _ "CHR ''l'' # _"]
                  bdecode_list_while_rl.simps [of _ "CHR ''e'' # _"])
  have eq: "replicate (Suc (Suc n)) CHR ''l'' @ replicate (Suc (Suc n)) CHR ''e'' @ r
      = CHR ''l'' # inner"
    unfolding inner_def by (simp add: replicate_app_Cons_same)
  consider "limit = 0" | "limit = Suc 0" | k where "limit = Suc (Suc k)"
    by (metis not0_implies_Suc)
  then show ?case
  proof cases
    case 1
    then show ?thesis by (simp add: bdecode_rl.simps)
  next
    case 2
    then show ?thesis
      unfolding eq
      by (subst bdecode_rl.simps) (simp add: bdecode_list_rl.simps [of 0])
  next
    case 3
    have "bdecode_list_rl (Suc k) (CHR ''l'' # inner)
        = (if 2 * Suc n \<le> k then Inr ([nest_list n], r) else Inl RuntimeError)"
      by (subst bdecode_list_rl.simps) (simp add: w [of k])
    then show ?thesis
      unfolding eq 3
      by (subst bdecode_rl.simps) simp
  qed
qed


lemma bdecode_rl_enough:
  "\<exists>n. \<forall>limit\<ge>n. bdecode_rl limit s = bdecode s"
  "\<exists>n. \<forall>limit\<ge>n. bdecode_list_rl limit s1 = bdecode_list s1"
  "\<exists>n. \<forall>limit\<ge>n. bdecode_list_while_rl limit l res = bdecode_list_while l res"
  "\<exists>n. \<forall>limit\<ge>n. bdecode_dict_rl limit s2 = bdecode_dict s2"
proof (induction s and s1 and l res and s2
       rule: bdecode_bdecode_list_bdecode_list_while_bdecode_dict.induct)
  case (1 s)
  have "\<exists>n. s \<noteq> [] \<and> hd s \<noteq> CHR ''i'' \<and> hd s = CHR ''l'' \<longrightarrow>
          (\<forall>limit\<ge>n. bdecode_list_rl limit s = bdecode_list s)"
    using 1(1) by (cases "s \<noteq> [] \<and> hd s \<noteq> CHR ''i'' \<and> hd s = CHR ''l''") auto
  then obtain a where a: "s \<noteq> [] \<and> hd s \<noteq> CHR ''i'' \<and> hd s = CHR ''l'' \<longrightarrow>
          (\<forall>limit\<ge>a. bdecode_list_rl limit s = bdecode_list s)" ..
  have "\<exists>n. s \<noteq> [] \<and> hd s \<noteq> CHR ''i'' \<and> hd s \<noteq> CHR ''l'' \<and> hd s = CHR ''d'' \<longrightarrow>
          (\<forall>limit\<ge>n. bdecode_dict_rl limit s = bdecode_dict s)"
    using 1(2)
    by (cases "s \<noteq> [] \<and> hd s \<noteq> CHR ''i'' \<and> hd s \<noteq> CHR ''l'' \<and> hd s = CHR ''d''") auto
  then obtain b where b: "s \<noteq> [] \<and> hd s \<noteq> CHR ''i'' \<and> hd s \<noteq> CHR ''l'' \<and> hd s = CHR ''d'' \<longrightarrow>
          (\<forall>limit\<ge>b. bdecode_dict_rl limit s = bdecode_dict s)" ..
  have "bdecode_rl limit s = bdecode s" if "limit \<ge> Suc (Suc (max a b))" for limit
  proof -
    from that have l: "limit \<noteq> 0" "limit - 1 \<noteq> 0" "limit - 1 \<ge> a" "limit - 1 \<ge> b"
      by auto
    with a b show ?thesis
      by (simp add: bdecode_rl.simps [of limit s] bdecode.simps [of s]
                    bdecode_int_rl_def bdecode_str_rl_def)
  qed
  then show ?case by blast
next
  case (2 s)
  have "\<exists>n. s \<noteq> [] \<and> hd s = CHR ''l'' \<longrightarrow>
          (\<forall>limit\<ge>n. bdecode_list_while_rl limit (tl s) [] = bdecode_list_while (tl s) [])"
    using 2 by (cases "s \<noteq> [] \<and> hd s = CHR ''l''") auto
  then obtain a where a: "s \<noteq> [] \<and> hd s = CHR ''l'' \<longrightarrow>
          (\<forall>limit\<ge>a. bdecode_list_while_rl limit (tl s) [] = bdecode_list_while (tl s) [])" ..
  have "bdecode_list_rl limit s = bdecode_list s" if "limit \<ge> Suc a" for limit
  proof -
    from that have l: "limit \<noteq> 0" "limit - 1 \<ge> a" by auto
    with a show ?thesis
      by (simp add: bdecode_list_rl.simps [of limit s] bdecode_list.simps [of s])
  qed
  then show ?case by blast
next
  case (3 leftovers result)
  show ?case
  proof (cases "leftovers \<noteq> [] \<and> hd leftovers \<noteq> CHR ''e''")
    case False
    then have "bdecode_list_while_rl limit leftovers result = bdecode_list_while leftovers result"
      for limit
      by (auto simp: bdecode_list_while_rl.simps [of limit leftovers]
                     bdecode_list_while.simps [of leftovers])
    then show ?thesis by blast
  next
    case True
    from 3(1) [OF True] obtain a where a: "\<forall>limit\<ge>a. bdecode_rl limit leftovers = bdecode leftovers"
      by blast
    show ?thesis
    proof (cases "bdecode leftovers")
      case (Inl e)
      with a True have "bdecode_list_while_rl limit leftovers result
          = bdecode_list_while leftovers result" if "limit \<ge> a" for limit
        using that by (simp add: bdecode_list_while_rl.simps [of limit leftovers]
                                 bdecode_list_while.simps [of leftovers])
      then show ?thesis by blast
    next
      case (Inr vr)
      obtain v rest where vr: "vr = (v, rest)" by (cases vr)
      from 3(2) [OF True Inr vr [symmetric]]
      obtain b where b: "\<forall>limit\<ge>b. bdecode_list_while_rl limit rest (result @ [v])
          = bdecode_list_while rest (result @ [v])"
        by blast
      have "bdecode_list_while_rl limit leftovers result = bdecode_list_while leftovers result"
        if "limit \<ge> max a b" for limit
      proof -
        from that a b have "bdecode_rl limit leftovers = bdecode leftovers"
          "bdecode_list_while_rl limit rest (result @ [v]) = bdecode_list_while rest (result @ [v])"
          by auto
        with True Inr vr show ?thesis
          by (simp add: bdecode_list_while_rl.simps [of limit leftovers]
                        bdecode_list_while.simps [of leftovers])
      qed
      then show ?thesis by blast
    qed
  qed
next
  case (4 s)
  have "\<exists>n. s \<noteq> [] \<and> hd s = CHR ''d'' \<longrightarrow>
          (\<forall>limit\<ge>n. bdecode_list_rl limit (CHR ''l'' # tl s) = bdecode_list (CHR ''l'' # tl s))"
    using 4 by (cases "s \<noteq> [] \<and> hd s = CHR ''d''") auto
  then obtain a where a: "s \<noteq> [] \<and> hd s = CHR ''d'' \<longrightarrow>
          (\<forall>limit\<ge>a. bdecode_list_rl limit (CHR ''l'' # tl s) = bdecode_list (CHR ''l'' # tl s))" ..
  have "bdecode_dict_rl limit s = bdecode_dict s" if "limit \<ge> Suc a" for limit
  proof -
    from that have l: "limit \<noteq> 0" "limit - 1 \<ge> a" by auto
    with a show ?thesis
      by (simp add: bdecode_dict_rl.simps [of limit s] bdecode_dict.simps [of s])
  qed
  then show ?case by blast
qed

subsection \<open>Filling a dictionary\<close>

lemma map_of_setitem: "map_of (setitem d k v) = (map_of d)(k \<mapsto> v)"
  by (induction d k v rule: setitem.induct) auto

lemma keys_setitem: "fst ` set (setitem d k v) = insert k (fst ` set d)"
  by (induction d k v rule: setitem.induct) auto

lemma distinct_setitem: "distinct (map fst d) \<Longrightarrow> distinct (map fst (setitem d k v))"
  by (induction d k v rule: setitem.induct) (auto simp: keys_setitem)

lemma dict_fill_hashable:
  "\<forall>k\<in>set (keys_of items). hashable k \<noteq> None \<Longrightarrow> distinct (map fst acc) \<Longrightarrow>
     \<exists>d. dict_fill items acc = Inr d
        \<and> map_of d = map_of acc ++ map_of (rev (kv_pairs items))
        \<and> distinct (map fst d)"
proof (induction items acc rule: dict_fill.induct)
  case (1 k v items result)
  then obtain k' where k': "hashable k = Some k'" by auto
  with 1 obtain d where d: "dict_fill items (setitem result k' v) = Inr d"
      "map_of d = map_of (setitem result k' v) ++ map_of (rev (kv_pairs items))"
      "distinct (map fst d)"
    using distinct_setitem [of result k' v] by auto
  have "map_of d = map_of result ++ map_of (rev (kv_pairs (k # v # items)))"
    by (simp add: d(2) k' map_of_setitem)
  with d k' show ?case by simp
qed simp_all

subsection \<open>Decimal digits\<close>

lemma digit_char_isdigit: "d < 10 \<Longrightarrow> isdigit (digit_char d)"
  by (simp add: isdigit_def digit_char_def less_eq_char_def)

lemma digit_val_digit_char: "d < 10 \<Longrightarrow> digit_val (digit_char d) = d"
  by (simp add: digit_val_def digit_char_def)

lemma digit_char_0: "digit_char 0 = CHR ''0''"
  unfolding digit_char_def by code_simp

lemma digit_char_zero: "d < 10 \<Longrightarrow> digit_char d = CHR ''0'' \<longleftrightarrow> d = 0"
proof
  assume "d < 10" "digit_char d = CHR ''0''"
  then have "digit_val (digit_char d) = digit_val CHR ''0''" by simp
  with \<open>d < 10\<close> show "d = 0" by (simp add: digit_val_digit_char) (simp add: digit_val_def)
next
  assume "d = 0" then show "digit_char d = CHR ''0''" by (simp add: digit_char_0)
qed

lemma digits_nonempty: "digits n \<noteq> []"
  by (subst digits.simps) simp

lemma digits_isdigit: "c \<in> set (digits n) \<Longrightarrow> isdigit c"
proof (induction n rule: digits.induct)
  case (1 n)
  then show ?case
    by (subst (asm) (2) digits.simps) (auto simp: digit_char_isdigit split: if_splits)
qed

lemma digits_value_snoc: "digits_value (ds @ [c]) = 10 * digits_value ds + digit_val c"
  by (simp add: digits_value_def)

lemma digits_value_digits: "digits_value (digits n) = n"
proof (induction n rule: digits.induct)
  case (1 n)
  show ?case
  proof (cases "n < 10")
    case True
    then show ?thesis
      by (subst digits.simps) (simp add: digits_value_def digit_val_digit_char)
  next
    case False
    with 1 show ?thesis
      by (subst digits.simps) (simp add: digits_value_snoc digit_val_digit_char)
  qed
qed

lemma digits_leading_zero: "hd (digits n) = CHR ''0'' \<Longrightarrow> n = 0"
proof (induction n rule: digits.induct)
  case (1 n)
  show ?case
  proof (cases "n < 10")
    case True
    with 1(2) show ?thesis
      by (subst (asm) digits.simps) (simp add: digit_char_zero)
  next
    case False
    with 1(2) have "hd (digits (n div 10)) = CHR ''0''"
      by (subst (asm) digits.simps) (simp add: digits_nonempty)
    with 1(1) False have "n div 10 = 0" by simp
    with False show ?thesis by simp
  qed
qed

lemma digits_zero: "digits 0 = ''0''"
  by (subst digits.simps) (simp add: digit_char_0)

subsection \<open>Sorted keys\<close>

lemma join_map_Inr:
  "\<forall>x\<in>set xs. g x = Inr (h x) \<Longrightarrow> join (map g xs) = Inr (concat (map h xs))"
  by (induction xs) auto

lemma sort_cong_mset: "mset xs = mset ys \<Longrightarrow> sort xs = sort ys"
  by (metis properties_for_sort sorted_sort mset_sort)

lemma dict_same_entries:
  assumes "distinct (map fst d)" "distinct (map fst d')" "set d' = set d"
  shows "map_of d' = map_of d" and "mset (map f d') = mset (map f d)"
proof -
  show "map_of d' = map_of d"
    using assms by (simp add: map_of_inject_set)
  have "distinct d" "distinct d'"
    using assms(1,2) by (simp_all add: distinct_map)
  then have "mset d' = mset d"
    using assms(3) by (simp add: set_eq_iff_mset_eq_distinct)
  then show "mset (map f d') = mset (map f d)"
    by (metis mset_map)
qed

lemma bencode_dict_order:
  assumes "distinct (map fst d)" "distinct (map fst d')" "set d' = set d"
  shows "bencode_dict d' = bencode_dict d"
proof -
  have "sort (map str_key (map fst d')) = sort (map str_key (map fst d))"
    using dict_same_entries(2) [OF assms, where f = "\<lambda>x. str_key (fst x)"]
    by (intro sort_cong_mset) (simp add: comp_def)
  then show ?thesis
    by (simp add: bencode_dict.simps dict_same_entries(1) [OF assms])
qed

lemma str_keys_distinct:
  assumes "distinct (map fst d)" "\<forall>k\<in>fst ` set d. \<exists>s. k = KStr s"
  shows "distinct (map str_key (map fst d))"
proof -
  have "inj_on str_key (set (map fst d))"
  proof (rule inj_onI)
    fix a b assume ab: "a \<in> set (map fst d)" "b \<in> set (map fst d)" "str_key a = str_key b"
    with assms(2) obtain s t where "a = KStr s" "b = KStr t" by (metis set_map)
    with ab(3) show "a = b" by simp
  qed
  with assms(1) show ?thesis
    using distinct_map [of str_key "map fst d"] by blast
qed

subsection \<open>Parsing the digits the encoder writes\<close>

lemma isdigit_not_special:
  "isdigit c \<Longrightarrow> \<not> isspace c \<and> c \<noteq> CHR ''+'' \<and> c \<noteq> CHR ''-'' \<and> c \<noteq> CHR ''e'' \<and> c \<noteq> CHR '':''
     \<and> c \<noteq> CHR ''i'' \<and> c \<noteq> CHR ''l'' \<and> c \<noteq> CHR ''d'' \<and> c \<noteq> CHR ''L''"
  by (auto simp: isdigit_def isspace_def less_eq_char_def)

lemma hd_digits_isdigit: "isdigit (hd (digits n))"
  using digits_isdigit [of "hd (digits n)" n] digits_nonempty [of n] by simp

lemma py_parse_run:
  assumes "ds \<noteq> []" "\<forall>c\<in>set ds. isdigit c"
  shows "py_parse b ds = Some (int (digits_value ds))"
    and "py_parse b (CHR ''-'' # ds) = Some (- int (digits_value ds))"
proof -
  have h: "isdigit (hd ds)" using assms by simp
  have 1: "dropWhile isspace ds = ds"
    using h assms(1) isdigit_not_special [of "hd ds"] by (cases ds) auto
  have 2: "takeWhile isdigit ds = ds"
    using assms(2) by (simp add: takeWhile_eq_all_conv)
  have 3: "dropWhile isdigit ds = []"
    using assms(2) by (simp add: dropWhile_eq_Nil_conv)
  show "py_parse b ds = Some (int (digits_value ds))"
    using h assms(1) isdigit_not_special [of "hd ds"]
    by (simp add: py_parse_def 1 2 3 Let_def)
  have "\<not> isspace CHR ''-''" by (simp add: isspace_def)
  then show "py_parse b (CHR ''-'' # ds) = Some (- int (digits_value ds))"
    using assms(1) by (simp add: py_parse_def 1 2 3 Let_def)
qed

lemma py_parse_digits: "py_parse b (digits m) = Some (int m)"
  using py_parse_run(1) [of "digits m" b]
  by (simp add: digits_nonempty digits_isdigit digits_value_digits)

lemma py_long_format_d: "py_long (format_d n) = Some n"
proof (cases "n < 0")
  case False
  then show ?thesis
    using py_parse_digits [of True "nat n"] by (simp add: py_long_def format_d_def)
next
  case True
  then show ?thesis
    using py_parse_run(2) [of "digits (nat (- n))" True]
    by (simp add: py_long_def format_d_def digits_nonempty digits_isdigit digits_value_digits)
qed

lemma format_d_no_e: "CHR ''e'' \<notin> set (format_d n)"
  using isdigit_not_special [of "CHR ''e''"] digits_isdigit [of "CHR ''e''"]
  by (auto simp: format_d_def)

lemma bdecode_int_roundtrip:
  "r \<noteq> [] \<Longrightarrow> bdecode_int (bencode_int n @ r) = Inr (VInt n, r)"
proof -
  assume r: "r \<noteq> []"
  have p: "str_partition CHR ''e'' (CHR ''i'' # format_d n @ CHR ''e'' # r)
             = (CHR ''i'' # format_d n, ''e'', r)"
    using str_partition_found [of "CHR ''e''" "CHR ''i'' # format_d n" r] format_d_no_e [of n]
    by simp
  have "format_d n \<noteq> []"
    by (simp add: format_d_def digits_nonempty)
  then have "\<not> length (CHR ''i'' # format_d n @ CHR ''e'' # r) \<le> 2"
    using r by (cases "format_d n"; cases r) auto
  then show ?thesis
    using r by (simp add: bdecode_int_def bencode_int_def p py_long_format_d del: length_Cons length_append)
qed

lemma bdecode_str_roundtrip:
  "s @ r \<noteq> [] \<Longrightarrow> bdecode_str (bencode_str s @ r) = Inr (VStr s, r)"
proof -
  assume r: "s @ r \<noteq> []"
  have "CHR '':'' \<notin> set (digits (length s))"
    using isdigit_not_special [of "CHR '':''"] digits_isdigit [of "CHR '':''"] by auto
  then have p: "str_partition CHR '':'' (digits (length s) @ CHR '':'' # s @ r)
             = (digits (length s), '':'', s @ r)"
    by (rule str_partition_found)
  show ?thesis
    using r by (auto simp: bdecode_str_def bencode_str_def format_d_def p py_int_def py_parse_digits Let_def)
qed

subsection \<open>The loop of the list parser\<close>

lemma step_ok_value:
  assumes "enc \<noteq> []" "hd enc \<noteq> CHR ''e''" "\<forall>r. r \<noteq> [] \<longrightarrow> bdecode (enc @ r) = Inr (v, r)"
  shows "step_ok enc [v]"
  unfolding step_ok_def
proof (intro allI impI)
  fix r :: string and acc assume "r \<noteq> []"
  with assms show "bdecode_list_while (enc @ r) acc = bdecode_list_while r (acc @ [v])"
    by (subst bdecode_list_while.simps) simp
qed

lemma step_ok_append:
  assumes "step_ok e1 i1" "step_ok e2 i2"
  shows "step_ok (e1 @ e2) (i1 @ i2)"
  using assms unfolding step_ok_def by simp

lemma bdecode_list_while_steps:
  "\<forall>x\<in>set xs. step_ok (enc x) (items x) \<Longrightarrow>
     bdecode_list_while (concat (map enc xs) @ CHR ''e'' # r) acc
       = Inr (acc @ concat (map items xs), CHR ''e'' # r)"
proof (induction xs arbitrary: acc)
  case Nil
  show ?case by (subst bdecode_list_while.simps) simp
next
  case (Cons x xs)
  then have "step_ok (enc x) (items x)" by simp
  then have "bdecode_list_while (enc x @ (concat (map enc xs) @ CHR ''e'' # r)) acc
      = bdecode_list_while (concat (map enc xs) @ CHR ''e'' # r) (acc @ items x)"
    unfolding step_ok_def by blast
  with Cons show ?case by simp
qed

lemma bdecode_list_steps:
  "\<forall>x\<in>set xs. step_ok (enc x) (items x) \<Longrightarrow>
     bdecode_list (CHR ''l'' # concat (map enc xs) @ CHR ''e'' # r)
       = Inr (concat (map items xs), r)"
  using bdecode_list_while_steps [of xs enc items r "[]"]
  by (simp add: bdecode_list.simps)

lemma setitem_new: "k \<notin> fst ` set d \<Longrightarrow> setitem d k v = d @ [(k, v)]"
  by (induction d k v rule: setitem.induct) auto

lemma dict_fill_sorted_keys:
  "distinct ks \<Longrightarrow> \<forall>k\<in>set ks. KStr k \<notin> fst ` set acc \<Longrightarrow>
     dict_fill (concat (map (\<lambda>k. [VStr k, f k]) ks)) acc = Inr (acc @ map (\<lambda>k. (KStr k, f k)) ks)"
proof (induction ks arbitrary: acc)
  case Nil
  show ?case by simp
next
  case (Cons k ks)
  have "\<forall>k'\<in>set ks. KStr k' \<notin> fst ` set (acc @ [(KStr k, f k)])"
    using Cons.prems by auto
  with Cons show ?case
    by (simp add: setitem_new)
qed


lemma bdecode_bencode_str:
  "s @ r \<noteq> [] \<Longrightarrow> bdecode (bencode_str s @ r) = Inr (VStr s, r)"
proof -
  assume r: "s @ r \<noteq> []"
  have h: "hd (bencode_str s @ r) = hd (digits (length s))" "bencode_str s \<noteq> []"
    by (simp_all add: bencode_str_def format_d_def digits_nonempty)
  have "bdecode (bencode_str s @ r) = bdecode_str (bencode_str s @ r)"
    using h hd_digits_isdigit [of "length s"] isdigit_not_special [of "hd (digits (length s))"]
    by (subst bdecode.simps) simp
  with r show ?thesis
    by (simp add: bdecode_str_roundtrip)
qed

lemma bdecode_bencode_int:
  "r \<noteq> [] \<Longrightarrow> bdecode (bencode_int n @ r) = Inr (VInt n, r)"
proof -
  assume r: "r \<noteq> []"
  have "bdecode (bencode_int n @ r) = bdecode_int (bencode_int n @ r)"
    by (subst bdecode.simps) (simp add: bencode_int_def)
  with r show ?thesis
    by (simp add: bdecode_int_roundtrip)
qed

lemma bencode_str_head: "bencode_str s \<noteq> [] \<and> hd (bencode_str s) \<noteq> CHR ''e''"
  using hd_digits_isdigit [of "length s"] isdigit_not_special [of "hd (digits (length s))"]
  by (auto simp: bencode_str_def format_d_def digits_nonempty)

lemma concat_map_single: "concat (map (\<lambda>x. [f x]) xs) = map f xs"
  by (induction xs) auto

lemma length_concat_pairs: "length (concat (map (\<lambda>k. [f k, g k]) ks)) = 2 * length ks"
  by (induction ks) auto

subsection \<open>Decoding an encoding\<close>

text \<open>
  What the encoder wrote for a value of the four kinds is read back as the same
  value whenever more input follows it, and also at the very end of the buffer when
  the value is a list, a dictionary or a non-empty byte string.
\<close>

lemma roundtrip_aux:
  "four_kinds v \<longrightarrow>
     (\<exists>enc. bencode v = Inr enc \<and> enc \<noteq> [] \<and> hd enc \<noteq> CHR ''e''
        \<and> (\<forall>r. r \<noteq> [] \<longrightarrow> bdecode (enc @ r) = Inr (canon v, r)))"
  "(\<forall>x\<in>set xs. four_kinds x) \<longrightarrow>
     (\<exists>body. bencode_list xs = Inr (CHR ''l'' # body @ ''e'')
        \<and> (\<forall>r. bdecode_list (CHR ''l'' # body @ CHR ''e'' # r) = Inr (map canon xs, r)))"
  "four_kinds (VDict d) \<longrightarrow>
     (\<exists>body. bencode_dict d = Inr (CHR ''d'' # body @ ''e'')
        \<and> (\<forall>r. bdecode_dict (CHR ''d'' # body @ CHR ''e'' # r) = Inr (canon_entries d, r)))"
proof (induction v and xs and d rule: bencode_bencode_list_bencode_dict.induct)
  case (1 n)
  show ?case
    by (simp add: bdecode_bencode_int) (simp add: bencode_int_def)
next
  case (2 s)
  show ?case
    using bencode_str_head [of s] by (simp add: bdecode_bencode_str)
next
  case (3 xs)
  show ?case
  proof
    assume "four_kinds (VList xs)"
    with 3 obtain body where b: "bencode_list xs = Inr (CHR ''l'' # body @ ''e'')"
      "\<forall>r. bdecode_list (CHR ''l'' # body @ CHR ''e'' # r) = Inr (map canon xs, r)"
      by auto
    have "bdecode ((CHR ''l'' # body @ ''e'') @ r) = Inr (canon (VList xs), r)" for r
      using b(2) by (subst bdecode.simps) simp
    with b(1) show "\<exists>enc. bencode (VList xs) = Inr enc \<and> enc \<noteq> [] \<and> hd enc \<noteq> CHR ''e''
        \<and> (\<forall>r. r \<noteq> [] \<longrightarrow> bdecode (enc @ r) = Inr (canon (VList xs), r))"
      by simp
  qed
next
  case (4 d)
  show ?case
  proof
    assume "four_kinds (VDict d)"
    with 4 obtain body where b: "bencode_dict d = Inr (CHR ''d'' # body @ ''e'')"
      "\<forall>r. bdecode_dict (CHR ''d'' # body @ CHR ''e'' # r) = Inr (canon_entries d, r)"
      by auto
    have "bdecode ((CHR ''d'' # body @ ''e'') @ r) = Inr (canon (VDict d), r)" for r
      using b(2) by (subst bdecode.simps) (simp add: canon_entries_def)
    with b(1) show "\<exists>enc. bencode (VDict d) = Inr enc \<and> enc \<noteq> [] \<and> hd enc \<noteq> CHR ''e''
        \<and> (\<forall>r. r \<noteq> [] \<longrightarrow> bdecode (enc @ r) = Inr (canon (VDict d), r))"
      by simp
  qed
next
  case 5
  show ?case by simp
next
  case (6 xs)
  show ?case
  proof
    assume wf: "\<forall>x\<in>set xs. four_kinds x"
    let ?enc = "\<lambda>x. projr (bencode x)"
    have each: "bencode x = Inr (?enc x) \<and> step_ok (?enc x) [canon x]" if "x \<in> set xs" for x
    proof -
      from 6 [OF that] wf that obtain enc where e: "bencode x = Inr enc" "enc \<noteq> []"
        "hd enc \<noteq> CHR ''e''" "\<forall>r. r \<noteq> [] \<longrightarrow> bdecode (enc @ r) = Inr (canon x, r)"
        by auto
      then show ?thesis
        using step_ok_value [of enc "canon x"] by simp
    qed
    then have j: "join (map bencode xs) = Inr (concat (map ?enc xs))"
      by (intro join_map_Inr) simp
    have "bdecode_list (CHR ''l'' # concat (map ?enc xs) @ CHR ''e'' # r)
            = Inr (map canon xs, r)" for r
      using bdecode_list_steps [of xs ?enc "\<lambda>x. [canon x]" r] each
      by (simp add: concat_map_single)
    with j show "\<exists>body. bencode_list xs = Inr (CHR ''l'' # body @ ''e'')
        \<and> (\<forall>r. bdecode_list (CHR ''l'' # body @ CHR ''e'' # r) = Inr (map canon xs, r))"
      by (simp add: bencode_list.simps)
  qed
next
  case (7 d)
  show ?case
  proof
    assume wf: "four_kinds (VDict d)"
    let ?keys = "sort (map str_key (map fst d))"
    let ?f = "\<lambda>k. case map_of d (KStr k) of None \<Rightarrow> VOther | Some v \<Rightarrow> canon v"
    let ?enc = "\<lambda>k. bencode_str k @ projr (bencode (the (map_of d (KStr k))))"
    let ?g = "\<lambda>k. case map_of d (KStr k) of None \<Rightarrow> Inl KeyError
                  | Some v \<Rightarrow> (case bencode v of Inl e \<Rightarrow> Inl e | Inr b \<Rightarrow> Inr (bencode_str k @ b))"
    from wf have dist: "distinct (map fst d)" and str: "\<forall>k\<in>fst ` set d. \<exists>s. k = KStr s"
      by auto
    have each: "?g k = Inr (?enc k) \<and> step_ok (?enc k) [VStr k, ?f k]" if "k \<in> set ?keys" for k
    proof -
      from that obtain k' v where kv: "(k', v) \<in> set d" "k = str_key k'"
        by auto
      with str obtain s where "k' = KStr s" by force
      with kv have "(KStr k, v) \<in> set d" by simp
      with dist have m: "map_of d (KStr k) = Some v" by (intro map_of_is_SomeI) simp_all
      from wf kv(1) have "four_kinds v" by auto
      with 7 [OF refl that m] obtain enc where e: "bencode v = Inr enc" "enc \<noteq> []"
        "hd enc \<noteq> CHR ''e''" "\<forall>r. r \<noteq> [] \<longrightarrow> bdecode (enc @ r) = Inr (canon v, r)"
        by auto
      have "step_ok (bencode_str k) [VStr k]"
        using bencode_str_head [of k] by (intro step_ok_value) (simp_all add: bdecode_bencode_str)
      moreover have "step_ok enc [canon v]"
        using e by (intro step_ok_value) simp_all
      ultimately have "step_ok (bencode_str k @ enc) ([VStr k] @ [canon v])"
        by (rule step_ok_append)
      with m e(1) show ?thesis by simp
    qed
    then have j: "join (map ?g ?keys) = Inr (concat (map ?enc ?keys))"
      by (intro join_map_Inr) simp
    have dk: "distinct ?keys"
      using str_keys_distinct [OF dist str] by simp
    have fill: "dict_fill (concat (map (\<lambda>k. [VStr k, ?f k]) ?keys)) [] = Inr (canon_entries d)"
      using dict_fill_sorted_keys [OF dk, of "[]" ?f] by (simp add: canon_entries_def)
    have "bdecode_dict (CHR ''d'' # concat (map ?enc ?keys) @ CHR ''e'' # r)
            = Inr (canon_entries d, r)" for r
      using bdecode_list_steps [of ?keys ?enc "\<lambda>k. [VStr k, ?f k]" r] each fill
      by (subst bdecode_dict.simps) (simp add: length_concat_pairs)
    with j show "\<exists>body. bencode_dict d = Inr (CHR ''d'' # body @ ''e'')
        \<and> (\<forall>r. bdecode_dict (CHR ''d'' # body @ CHR ''e'' # r) = Inr (canon_entries d, r))"
      by (simp add: bencode_dict.simps)
  qed
qed


lemma roundtrip_followed:
  assumes "four_kinds v" "r \<noteq> []"
  shows "\<exists>enc. bencode v = Inr enc \<and> bdecode (enc @ r) = Inr (canon v, r)"
  using roundtrip_aux(1) [of v] assms by blast

lemma roundtrip_at_end:
  assumes "four_kinds v" "(\<exists>xs. v = VList xs) \<or> (\<exists>d. v = VDict d) \<or> (\<exists>s. v = VStr s \<and> s \<noteq> [])"
  shows "\<exists>enc. bencode v = Inr enc \<and> bdecode enc = Inr (canon v, [])"
proof -
  consider xs where "v = VList xs" | d where "v = VDict d" | s where "v = VStr s" "s \<noteq> []"
    using assms(2) by blast
  then show ?thesis
  proof cases
    case 1
    with assms(1) roundtrip_aux(2) [of xs]
    obtain body where b: "bencode_list xs = Inr (CHR ''l'' # body @ ''e'')"
      "bdecode_list (CHR ''l'' # body @ ''e'') = Inr (map canon xs, [])"
      by auto
    have "bdecode (CHR ''l'' # body @ ''e'') = Inr (canon (VList xs), [])"
      using b(2) by (subst bdecode.simps) simp
    with b(1) 1 show ?thesis by simp
  next
    case 2
    with assms(1) roundtrip_aux(3) [of d]
    obtain body where b: "bencode_dict d = Inr (CHR ''d'' # body @ ''e'')"
      "bdecode_dict (CHR ''d'' # body @ ''e'') = Inr (canon_entries d, [])"
      by auto
    have "bdecode (CHR ''d'' # body @ ''e'') = Inr (canon (VDict d), [])"
      using b(2) by (subst bdecode.simps) (simp add: canon_entries_def)
    with b(1) 2 show ?thesis by simp
  next
    case 3
    then show ?thesis
      using bdecode_bencode_str [of s "[]"] by simp
  qed
qed

lemma canon_entries_lookup:
  assumes "four_kinds (VDict d)"
  shows "map_of (canon_entries d) k = map_option canon (map_of d k)"
proof -
  let ?keys = "sort (map str_key (map fst d))"
  let ?f = "\<lambda>k. case map_of d (KStr k) of None \<Rightarrow> VOther | Some v \<Rightarrow> canon v"
  from assms have str: "\<forall>k\<in>fst ` set d. \<exists>s. k = KStr s" by auto
  have m: "map_of (map (\<lambda>k. (KStr k, ?f k)) ks) (KStr s) = (if s \<in> set ks then Some (?f s) else None)"
    for ks s
    by (induction ks) auto
  show ?thesis
  proof (cases k)
    case (KInt n)
    with str have "k \<notin> fst ` set d" by auto
    then have "map_of d k = None" by (simp add: map_of_eq_None_iff)
    moreover have "k \<notin> fst ` set (canon_entries d)"
      using KInt by (auto simp: canon_entries_def)
    then have "map_of (canon_entries d) k = None" by (simp add: map_of_eq_None_iff)
    ultimately show ?thesis by simp
  next
    case (KStr s)
    have "s \<in> set ?keys \<longleftrightarrow> KStr s \<in> fst ` set d"
    proof
      assume "s \<in> set ?keys"
      then obtain k' where k': "k' \<in> fst ` set d" "s = str_key k'" by auto
      with str obtain t where "k' = KStr t" by blast
      with k' show "KStr s \<in> fst ` set d" by simp
    next
      assume "KStr s \<in> fst ` set d"
      then have "str_key (KStr s) \<in> str_key ` fst ` set d" by (rule imageI)
      then show "s \<in> set ?keys" by (simp add: image_image)
    qed
    note iff = this
    have lhs: "map_of (canon_entries d) (KStr s) = (if s \<in> set ?keys then Some (?f s) else None)"
      unfolding canon_entries_def by (rule m)
    show ?thesis
    proof (cases "map_of d (KStr s)")
      case None
      then have "KStr s \<notin> fst ` set d" by (simp add: map_of_eq_None_iff)
      with iff have "s \<notin> set ?keys" by blast
      with lhs None KStr show ?thesis by simp
    next
      case (Some v)
      then have "KStr s \<in> fst ` set d" by (metis map_of_eq_None_iff option.distinct(1))
      with iff have "s \<in> set ?keys" by blast
      with lhs Some KStr show ?thesis by simp
    qed
  qed
qed

subsection \<open>The encoding of a dictionary\<close>

text \<open>
  The value of a key is looked up under the string of the key. A byte-string key is
  its own string.
\<close>

lemma bencode_dict_form:
  assumes "distinct (map fst d)" "\<forall>k\<in>fst ` set d. \<exists>s. k = KStr s"
    and "\<forall>v\<in>snd ` set d. bencode v = Inr (enc v)"
  shows "bencode (VDict d) =
        Inr (''d'' @ concat (map (\<lambda>k. bencode_str k @ enc (the (map_of d (KStr k))))
                                 (sort (map str_key (map fst d)))) @ ''e'')"
proof -
  let ?keys = "sort (map str_key (map fst d))"
  have each: "(case map_of d (KStr k) of None \<Rightarrow> Inl KeyError
                | Some v \<Rightarrow> (case bencode v of Inl e \<Rightarrow> Inl e | Inr b \<Rightarrow> Inr (bencode_str k @ b)))
              = Inr (bencode_str k @ enc (the (map_of d (KStr k))))"
    if "k \<in> set ?keys" for k
  proof -
    from that obtain k' v where kv: "(k', v) \<in> set d" "k = str_key k'"
      by auto
    from assms(2) kv(1) obtain s where "k' = KStr s" by force
    with kv have "(KStr k, v) \<in> set d" by simp
    with assms(1) have "map_of d (KStr k) = Some v" by (intro map_of_is_SomeI) simp_all
    moreover from kv(1) assms(3) have "bencode v = Inr (enc v)" by force
    ultimately show ?thesis by simp
  qed
  show ?thesis
    using join_map_Inr [of ?keys _ "\<lambda>k. bencode_str k @ enc (the (map_of d (KStr k)))"] each
    by (simp add: bencode_dict.simps)
qed

lemma four_kinds_encodes: "four_kinds v \<Longrightarrow> bencode v = Inr (projr (bencode v))"
proof -
  assume "four_kinds v"
  with roundtrip_aux(1) [of v] obtain enc where e: "bencode v = Inr enc" by blast
  have "projr (Inr enc :: exn + string) = enc" by simp
  with e show ?thesis by metis
qed

text \<open>
  For a dictionary of the data model (byte-string keys, no key twice, values of the
  four kinds) \<open>bencode\<close> emits \<^verbatim>\<open>d\<close>, then for each key in strictly ascending
  bytewise order the byte-string encoding of the key followed by the encoding
  \<open>enc v\<close> of its value, then \<^verbatim>\<open>e\<close>. Two dictionaries with the same entries
  in a different order have the same encoding.
\<close>

lemma bencode_dict_data_model:
  "(four_kinds (VDict d) \<longrightarrow>
      (\<exists>enc. (\<forall>v\<in>snd ` set d. bencode v = Inr (enc v))
         \<and> bencode (VDict d) =
             Inr (''d'' @ concat (map (\<lambda>k. bencode_str k @ enc (the (map_of d (KStr k))))
                                      (sort (map str_key (map fst d)))) @ ''e''))
      \<and> sorted_wrt (<) (sort (map str_key (map fst d)))
      \<and> set (sort (map str_key (map fst d))) = str_key ` fst ` set d)
   \<and> (distinct (map fst d) \<and> distinct (map fst d') \<and> set d' = set d \<longrightarrow>
        bencode (VDict d') = bencode (VDict d))
   \<and> bencode (VDict [(KStr ''b'', VInt 1), (KStr ''a'', VInt 2)]) = Inr ''d1:ai2e1:bi1ee''
   \<and> bencode (VDict [(KStr ''a'', VInt 2), (KStr ''b'', VInt 1)]) = Inr ''d1:ai2e1:bi1ee''"
proof (intro conjI impI)
  assume wf: "four_kinds (VDict d)"
  then have dist: "distinct (map fst d)" and str: "\<forall>k\<in>fst ` set d. \<exists>s. k = KStr s"
    and vs: "\<forall>v\<in>snd ` set d. four_kinds v"
    by auto
  have enc: "\<forall>v\<in>snd ` set d. bencode v = Inr (projr (bencode v))"
    using vs four_kinds_encodes by blast
  show "\<exists>enc. (\<forall>v\<in>snd ` set d. bencode v = Inr (enc v))
         \<and> bencode (VDict d) =
             Inr (''d'' @ concat (map (\<lambda>k. bencode_str k @ enc (the (map_of d (KStr k))))
                                      (sort (map str_key (map fst d)))) @ ''e'')"
  proof (intro exI [of _ "\<lambda>v. projr (bencode v)"] conjI)
    show "\<forall>v\<in>snd ` set d. bencode v = Inr (projr (bencode v))"
      by (rule enc)
    show "bencode (VDict d) =
             Inr (''d'' @ concat (map (\<lambda>k. bencode_str k @ projr (bencode (the (map_of d (KStr k)))))
                                      (sort (map str_key (map fst d)))) @ ''e'')"
      by (rule bencode_dict_form [OF dist str enc])
  qed
  show "sorted_wrt (<) (sort (map str_key (map fst d)))"
    using str_keys_distinct [OF dist str] by (simp add: strict_sorted_iff)
  show "set (sort (map str_key (map fst d))) = str_key ` fst ` set d"
    by (simp add: image_image)
next
  assume "distinct (map fst d) \<and> distinct (map fst d') \<and> set d' = set d"
  then show "bencode (VDict d') = bencode (VDict d)"
    by (simp add: bencode_dict_order)
next
  show "bencode (VDict [(KStr ''b'', VInt 1), (KStr ''a'', VInt 2)]) = Inr ''d1:ai2e1:bi1ee''"
    by code_simp
  show "bencode (VDict [(KStr ''a'', VInt 2), (KStr ''b'', VInt 1)]) = Inr ''d1:ai2e1:bi1ee''"
    by code_simp
qed

lemma bencode_dict_data_model_example:
  "(\<exists>enc. enc (VStr ''x'') = ''1:x'' \<and> enc (VList []) = ''le'' \<and> enc (VInt 7) = ''i7e''
      \<and> bencode (VDict [(KStr ''zz'', VStr ''x''), (KStr ''z'', VList []), (KStr ''a:'', VInt 7)])
          = Inr (''d'' @ bencode_str ''a:'' @ enc (VInt 7) @ bencode_str ''z'' @ enc (VList [])
                     @ bencode_str ''zz'' @ enc (VStr ''x'') @ ''e''))
   \<and> bencode (VDict [(KStr ''a:'', VInt 7), (KStr ''zz'', VStr ''x''), (KStr ''z'', VList [])])
     = bencode (VDict [(KStr ''zz'', VStr ''x''), (KStr ''z'', VList []), (KStr ''a:'', VInt 7)])"
proof -
  let ?d = "[(KStr ''zz'', VStr ''x''), (KStr ''z'', VList []), (KStr ''a:'', VInt 7)]"
  let ?d' = "[(KStr ''a:'', VInt 7), (KStr ''zz'', VStr ''x''), (KStr ''z'', VList [])]"
  have s: "sort [''zz'', ''z'', ''a:''] = [''a:'', ''z'', ''zz'']"
    by code_simp
  have v: "bencode (VStr ''x'') = Inr ''1:x''" "bencode (VList []) = Inr ''le''"
    "bencode (VInt 7) = Inr ''i7e''"
    by code_simp+
  have w: "four_kinds (VDict ?d)" by simp
  have "set ?d' = set ?d" by auto
  note t = bencode_dict_data_model [of ?d ?d']
  from t w obtain enc where e: "\<forall>v\<in>snd ` set ?d. bencode v = Inr (enc v)"
    and b: "bencode (VDict ?d) =
             Inr (''d'' @ concat (map (\<lambda>k. bencode_str k @ enc (the (map_of ?d (KStr k))))
                                      (sort (map str_key (map fst ?d)))) @ ''e'')"
    by blast
  from e v have ev: "enc (VStr ''x'') = ''1:x''" "enc (VList []) = ''le''" "enc (VInt 7) = ''i7e''"
    by simp_all
  have "bencode (VDict ?d) = Inr (''d'' @ bencode_str ''a:'' @ enc (VInt 7) @ bencode_str ''z''
          @ enc (VList []) @ bencode_str ''zz'' @ enc (VStr ''x'') @ ''e'')"
    using b by (simp add: s)
  moreover have "bencode (VDict ?d') = bencode (VDict ?d)"
    using t \<open>set ?d' = set ?d\<close> by simp
  ultimately show ?thesis
    using ev by blast
qed

subsection \<open>Integers and byte strings followed by more input\<close>

lemma bdecode_int_followed:
  assumes "ds \<noteq> []" "\<forall>c\<in>set ds. isdigit c" "r \<noteq> []"
  shows "bdecode (CHR ''i'' # ds @ CHR ''e'' # r) = Inr (VInt (int (digits_value ds)), r)"
    and "bdecode (CHR ''i'' # CHR ''-'' # ds @ CHR ''e'' # r) = Inr (VInt (- int (digits_value ds)), r)"
proof -
  have e: "CHR ''e'' \<notin> set ds"
    using assms(2) isdigit_not_special [of "CHR ''e''"] by auto
  have p: "str_partition CHR ''e'' (CHR ''i'' # ds @ CHR ''e'' # r) = (CHR ''i'' # ds, ''e'', r)"
    "str_partition CHR ''e'' (CHR ''i'' # CHR ''-'' # ds @ CHR ''e'' # r)
       = (CHR ''i'' # CHR ''-'' # ds, ''e'', r)"
    using str_partition_found [of "CHR ''e''" "CHR ''i'' # ds" r]
      str_partition_found [of "CHR ''e''" "CHR ''i'' # CHR ''-'' # ds" r] e
    by simp_all
  have l: "\<not> length (CHR ''i'' # ds @ CHR ''e'' # r) \<le> 2"
    "\<not> length (CHR ''i'' # CHR ''-'' # ds @ CHR ''e'' # r) \<le> 2"
    using assms(1,3) by (cases ds; cases r; simp)+
  show "bdecode (CHR ''i'' # ds @ CHR ''e'' # r) = Inr (VInt (int (digits_value ds)), r)"
    using l(1) assms(3) py_parse_run(1) [OF assms(1,2), of True]
    by (subst bdecode.simps) (simp add: bdecode_int_def p py_long_def del: length_Cons length_append)
  show "bdecode (CHR ''i'' # CHR ''-'' # ds @ CHR ''e'' # r) = Inr (VInt (- int (digits_value ds)), r)"
    using l(2) assms(3) py_parse_run(2) [OF assms(1,2), of True]
    by (subst bdecode.simps) (simp add: bdecode_int_def p py_long_def del: length_Cons length_append)
qed

lemma bdecode_str_followed:
  assumes "ds \<noteq> []" "\<forall>c\<in>set ds. isdigit c" "rest \<noteq> []"
  shows "bdecode (ds @ CHR '':'' # rest) =
           (if length rest < digits_value ds
            then Inl (BencodeError ''Invalid bencoded string: Too long length.'')
            else Inr (VStr (take (digits_value ds) rest), drop (digits_value ds) rest))"
proof -
  have "CHR '':'' \<notin> set ds"
    using assms(2) isdigit_not_special [of "CHR '':''"] by auto
  then have p: "str_partition CHR '':'' (ds @ CHR '':'' # rest) = (ds, '':'', rest)"
    by (rule str_partition_found)
  have h: "isdigit (hd ds)" using assms(1,2) by simp
  have "bdecode (ds @ CHR '':'' # rest) = bdecode_str (ds @ CHR '':'' # rest)"
    using h assms(1) isdigit_not_special [of "hd ds"] by (subst bdecode.simps) simp
  then show ?thesis
    using assms(3) py_parse_run(1) [OF assms(1,2), of False]
    by (simp add: bdecode_str_def p py_int_def Let_def)
qed

section \<open>The claims\<close>

text \<open>
  The module has one exception class of its own; the error kinds of the
  specification are told apart by the message of the \<^verbatim>\<open>BencodeError\<close>.
\<close>

subsection \<open>C1: the round trip\<close>

text \<open>
  C1. The claim has every value of the four kinds decode from its own encoding with
  an empty remainder. The encoding of an integer and the encoding of the empty byte
  string are refused when nothing follows them: \<open>bdecode_int\<close> and \<open>bdecode_str\<close>
  raise when the part after the \<^verbatim>\<open>e\<close> or the \<^verbatim>\<open>:\<close> is empty.
  (Everywhere else the round trip holds: \<open>roundtrip_followed\<close> and
  \<open>roundtrip_at_end\<close>.)
\<close>

theorem roundtrip_fails_at_end_of_buffer:
  "bencode (VInt 42) = Inr ''i42e''
   \<and> bdecode ''i42e'' = Inl (BencodeError ''Invalid bencoded int: string does not terminate.'')
   \<and> bencode (VStr []) = Inr ''0:''
   \<and> bdecode ''0:'' = Inl (BencodeError ''Invalid bencoded string: string does not contain ':'.'')"
  by code_simp

subsection \<open>C2: decoding an integer\<close>

text \<open>
  C2. The claim has \<^verbatim>\<open>i3e\<close> decode to the integer 3 with an empty remainder.
  \<open>bdecode_int\<close> tests the part after the first \<^verbatim>\<open>e\<close> for emptiness, not
  the presence of the \<^verbatim>\<open>e\<close>: a terminated integer at the very end of the
  buffer is refused as one that "does not terminate". An empty digit run followed by
  more input reaches \<^verbatim>\<open>long("")\<close>, whose \<^verbatim>\<open>ValueError\<close> is not caught.
  (When more input follows a non-empty digit run the claim holds:
  \<open>bdecode_int_followed\<close>.)
\<close>

theorem bdecode_int_at_end_of_buffer:
  "bdecode ''i3e'' = Inl (BencodeError ''Invalid bencoded int: string does not terminate.'')
   \<and> bdecode ''iex'' = Inl ValueError"
  by code_simp

subsection \<open>C3: the exceptions that leave the decoder\<close>

text \<open>
  C3. The claim has every failure of the decoder be one of the codec's own errors.
  \<open>bdecode_int\<close> passes the text between \<^verbatim>\<open>i\<close> and \<^verbatim>\<open>e\<close> to
  \<^verbatim>\<open>long\<close> outside any \<^verbatim>\<open>try\<close> (unlike \<open>bdecode_str\<close>, which turns the
  \<^verbatim>\<open>ValueError\<close> of \<^verbatim>\<open>int\<close> into a \<^verbatim>\<open>BencodeError\<close>), and
  \<open>bdecode_dict\<close> stores a decoded list as a key: a \<^verbatim>\<open>ValueError\<close> and a
  \<^verbatim>\<open>TypeError\<close> leave the decoder.
\<close>

theorem bdecode_foreign_exceptions:
  "bdecode ''iabcex'' = Inl ValueError \<and> bdecode ''dlei0ee'' = Inl TypeError"
  by code_simp

subsection \<open>C4: decoding a byte string\<close>

text \<open>
  C4. The claim has the buffer \<^verbatim>\<open>0:\<close> decode to the empty byte string with an
  empty remainder. \<open>bdecode_str\<close> tests the part after the first \<^verbatim>\<open>:\<close> for
  emptiness, not the presence of the \<^verbatim>\<open>:\<close>: the buffer is refused as one
  that "does not contain ':'". (When at least one byte follows the \<^verbatim>\<open>:\<close>
  the claim holds: \<open>bdecode_str_followed\<close>.)
\<close>

theorem bdecode_str_empty_at_end_of_buffer:
  "bdecode ''0:'' =
     Inl (BencodeError ''Invalid bencoded string: string does not contain ':'.'')"
  by code_simp

subsection \<open>C5: the kind of a dictionary key\<close>

text \<open>
  C5, as claimed, fails: no function of the decoder looks at the kind of a key, and
  the buffer \<^verbatim>\<open>di1ei2ee\<close> decodes to the dictionary with the integer key 1.
\<close>

theorem bdecode_dict_integer_key:
  "bdecode ''di1ei2ee'' = Inr (VDict [(KInt 1, VInt 2)], [])"
  by code_simp

text \<open>
  C5, amended. When the body of a dictionary parses as a list of an even number of
  items whose items at the even positions are integers or byte strings, decoding
  succeeds with the remainder of the list parse and builds the dictionary of these
  key/value pairs, integer keys included; a later pair overrides an earlier one with
  the same key.
\<close>

theorem bdecode_dict_keys_unchecked:
  assumes "bdecode_list (CHR ''l'' # body) = Inr (items, r)"
    and "even (length items)"
    and "\<forall>k\<in>set (keys_of items). hashable k \<noteq> None"
  shows "\<exists>d. bdecode (CHR ''d'' # body) = Inr (VDict d, r)
            \<and> map_of d = map_of (rev (kv_pairs items))
            \<and> distinct (map fst d)"
proof -
  from dict_fill_hashable [OF assms(3), of "[]"]
  obtain d where d: "dict_fill items [] = Inr d" "map_of d = map_of (rev (kv_pairs items))"
      "distinct (map fst d)"
    by auto
  have "bdecode (CHR ''d'' # body) = Inr (VDict d, r)"
    using assms(1,2) d(1) by (simp add: bdecode.simps bdecode_dict.simps even_iff_mod_2_eq_zero)
  with d show ?thesis by blast
qed

theorem bdecode_dict_keys_unchecked_witness:
  "\<exists>d. bdecode ''di1ei2e3:key5:valuee'' = Inr (VDict d, [])
      \<and> map_of d (KInt 1) = Some (VInt 2) \<and> map_of d (KStr ''key'') = Some (VStr ''value'')"
proof -
  have l: "bdecode_list ''li1ei2e3:key5:valuee'' = Inr ([VInt 1, VInt 2, VStr ''key'', VStr ''value''], [])"
    by code_simp
  from bdecode_dict_keys_unchecked [OF l]
  show ?thesis by auto
qed

subsection \<open>C6: the canonical encoding of a dictionary\<close>

text \<open>
  C6. The claim has every key coerced to its byte-string form and emitted with the
  encoding of its value. \<open>bencode_dict\<close> casts the keys to strings, as its
  documentation says, and then looks the value up under the string instead of the
  key: an integer key is not found (\<^verbatim>\<open>KeyError\<close>), or the value of another
  key, the string, is emitted in its place. (For the dictionaries of the data
  model, whose keys are byte strings, the claim holds:
  \<open>bencode_dict_data_model\<close>.)
\<close>

theorem bencode_dict_coerced_key_lookup:
  "bencode (VDict [(KInt 1, VInt 2)]) = Inl KeyError
   \<and> bencode (VDict [(KInt 1, VStr ''x''), (KStr ''1'', VStr ''y'')]) = Inr ''d1:11:y1:11:ye''"
  by code_simp

subsection \<open>C7: the canonical encoding of an integer\<close>

text \<open>
  C7. The encoding of an integer \<open>n\<close> is \<^verbatim>\<open>i\<close>, a minus sign exactly when
  \<open>n\<close> is negative, a non-empty run of decimal digits that denotes the absolute
  value of \<open>n\<close> and starts with \<^verbatim>\<open>0\<close> only when it is the single digit of
  \<open>n = 0\<close>, and \<^verbatim>\<open>e\<close>. Zero is \<^verbatim>\<open>i0e\<close>, 42 is \<^verbatim>\<open>i42e\<close>, -3 is
  \<^verbatim>\<open>i-3e\<close> and the boolean true, the integer 1, is \<^verbatim>\<open>i1e\<close>.
\<close>

theorem bencode_int_canonical:
  "(\<exists>ds. bencode (VInt n) = Inr (''i'' @ (if n < 0 then ''-'' else []) @ ds @ ''e'')
        \<and> ds \<noteq> [] \<and> (\<forall>c\<in>set ds. isdigit c)
        \<and> (hd ds = CHR ''0'' \<longrightarrow> n = 0 \<and> ds = ''0'')
        \<and> int (digits_value ds) = \<bar>n\<bar>)
   \<and> bencode (VInt 0) = Inr ''i0e''
   \<and> bencode (VInt 42) = Inr ''i42e''
   \<and> bencode (VInt (- 3)) = Inr ''i-3e''
   \<and> bencode (VInt (of_bool True)) = Inr ''i1e''"
proof -
  let ?ds = "digits (nat \<bar>n\<bar>)"
  have "bencode (VInt n) = Inr (''i'' @ (if n < 0 then ''-'' else []) @ ?ds @ ''e'')"
    by (simp add: bencode_int_def format_d_def)
  moreover have "?ds \<noteq> []" by (rule digits_nonempty)
  moreover have "\<forall>c\<in>set ?ds. isdigit c" by (simp add: digits_isdigit)
  moreover have "hd ?ds = CHR ''0'' \<longrightarrow> n = 0 \<and> ?ds = ''0''"
    using digits_leading_zero [of "nat \<bar>n\<bar>"] by (auto simp: digits_zero)
  moreover have "int (digits_value ?ds) = \<bar>n\<bar>" by (simp add: digits_value_digits)
  ultimately have "\<exists>ds. bencode (VInt n) = Inr (''i'' @ (if n < 0 then ''-'' else []) @ ds @ ''e'')
        \<and> ds \<noteq> [] \<and> (\<forall>c\<in>set ds. isdigit c)
        \<and> (hd ds = CHR ''0'' \<longrightarrow> n = 0 \<and> ds = ''0'')
        \<and> int (digits_value ds) = \<bar>n\<bar>"
    by blast
  moreover have "bencode (VInt 0) = Inr ''i0e''" "bencode (VInt 42) = Inr ''i42e''"
    "bencode (VInt (- 3)) = Inr ''i-3e''" "bencode (VInt (of_bool True)) = Inr ''i1e''"
    by code_simp+
  ultimately show ?thesis by blast
qed

theorem bencode_int_canonical_witness:
  "\<exists>ds. bencode (VInt (- 120)) = Inr (''i-'' @ ds @ ''e'') \<and> digits_value ds = 120
      \<and> hd ds \<noteq> CHR ''0'' \<and> isdigit (hd ds)"
  using bencode_int_canonical [of "- 120"] by (auto simp: hd_in_set)

subsection \<open>C8: dispatch on the first byte\<close>

text \<open>
  C8. Decoding the empty buffer fails with the "empty" error; decoding a buffer
  whose first byte is none of \<^verbatim>\<open>i\<close>, \<^verbatim>\<open>l\<close>, \<^verbatim>\<open>d\<close> or an ASCII digit
  fails with the "no type indicator" error; and on a first byte \<^verbatim>\<open>i\<close>,
  \<^verbatim>\<open>l\<close>, \<^verbatim>\<open>d\<close> or a digit the result of \<open>bdecode\<close> is the result of the
  integer, list, dictionary or byte-string parser on the same buffer.
\<close>

theorem bdecode_dispatch:
  "bdecode [] = Inl (BencodeError ''Invalid bencoded object: empty.'')
   \<and> (c \<noteq> CHR ''i'' \<and> c \<noteq> CHR ''l'' \<and> c \<noteq> CHR ''d'' \<and> \<not> isdigit c \<longrightarrow>
        bdecode (c # s) = Inl (BencodeError ''Invalid bencoded object: no type indicator.''))
   \<and> bdecode (CHR ''i'' # s) = bdecode_int (CHR ''i'' # s)
   \<and> bdecode (CHR ''l'' # s) =
        (case bdecode_list (CHR ''l'' # s) of Inl e \<Rightarrow> Inl e | Inr (xs, r) \<Rightarrow> Inr (VList xs, r))
   \<and> bdecode (CHR ''d'' # s) =
        (case bdecode_dict (CHR ''d'' # s) of Inl e \<Rightarrow> Inl e | Inr (d, r) \<Rightarrow> Inr (VDict d, r))
   \<and> (isdigit c \<longrightarrow> bdecode (c # s) = bdecode_str (c # s))"
  by (auto simp: bdecode.simps isdigit_def)

theorem bdecode_dispatch_witness:
  "bdecode ''x1:a'' = Inl (BencodeError ''Invalid bencoded object: no type indicator.'')
   \<and> bdecode ''7:spam'' = bdecode_str ''7:spam''"
  using bdecode_dispatch [of "CHR ''x''" "''1:a''"] bdecode_dispatch [of "CHR ''7''" "'':spam''"]
  by (simp add: isdigit_def)

subsection \<open>C9: nesting depth\<close>

text \<open>
  C9, as claimed, fails: under no recursion limit and for no bound do all buffers
  nested deeper than the bound fail with an error of the codec.
\<close>

theorem no_depth_error:
  "\<not> (\<exists>limit bound. \<forall>n>bound. \<exists>m. bdecode_rl limit (nest_buffer n) = Inl (BencodeError m))"
proof
  assume "\<exists>limit bound. \<forall>n>bound. \<exists>m. bdecode_rl limit (nest_buffer n) = Inl (BencodeError m)"
  then obtain limit bound m
    where "bdecode_rl limit (nest_buffer (Suc bound)) = Inl (BencodeError m)"
    by blast
  moreover have "bdecode_rl limit (nest_buffer (Suc bound))
      = (if 2 * Suc (Suc bound) \<le> limit then Inr (nest_list (Suc bound), []) else Inl RuntimeError)"
    using bdecode_rl_nested [of limit "Suc bound" "[]"] by (simp add: nest_buffer_def)
  ultimately show False by (simp split: if_splits)
qed

text \<open>
  C9, amended. The decoder has no bound on the nesting depth of its own and no
  error for it; it recurses once per nesting level, and the only bound is the
  recursion limit of the interpreter. Decoding the buffer of \<open>n + 1\<close> bytes
  \<^verbatim>\<open>l\<close> followed by \<open>n + 1\<close> bytes \<^verbatim>\<open>e\<close> either returns the lists nested
  \<open>n + 1\<close> deep with an empty remainder or raises the \<^verbatim>\<open>RuntimeError\<close> of
  the interpreter; it returns them under every large enough limit, and under every
  limit all deep enough buffers raise \<^verbatim>\<open>RuntimeError\<close>.
\<close>

theorem bdecode_depth_limit_is_the_interpreters:
  "(bdecode_rl limit (nest_buffer n) = Inr (nest_list n, [])
      \<or> bdecode_rl limit (nest_buffer n) = Inl RuntimeError)
   \<and> (\<exists>k. \<forall>limit'\<ge>k. bdecode_rl limit' (nest_buffer n) = Inr (nest_list n, []))
   \<and> (\<exists>k. \<forall>n'\<ge>k. bdecode_rl limit (nest_buffer n') = Inl RuntimeError)"
proof (intro conjI)
  have e: "bdecode_rl l (nest_buffer m)
      = (if 2 * Suc m \<le> l then Inr (nest_list m, []) else Inl RuntimeError)" for l m
    using bdecode_rl_nested [of l m "[]"] by (simp add: nest_buffer_def)
  show "bdecode_rl limit (nest_buffer n) = Inr (nest_list n, [])
      \<or> bdecode_rl limit (nest_buffer n) = Inl RuntimeError"
    by (simp add: e)
  have "\<forall>limit'\<ge>2 * Suc n. bdecode_rl limit' (nest_buffer n) = Inr (nest_list n, [])"
    by (simp add: e)
  then show "\<exists>k. \<forall>limit'\<ge>k. bdecode_rl limit' (nest_buffer n) = Inr (nest_list n, [])" ..
  have "\<forall>n'\<ge>limit. bdecode_rl limit (nest_buffer n') = Inl RuntimeError"
    by (simp add: e)
  then show "\<exists>k. \<forall>n'\<ge>k. bdecode_rl limit (nest_buffer n') = Inl RuntimeError" ..
qed

theorem bdecode_depth_limit_is_the_interpreters_witness:
  "bdecode_rl 100 (nest_buffer 3) = Inr (VList [VList [VList [VList []]]], [])
   \<and> bdecode_rl 3 (nest_buffer 3) = Inl RuntimeError"
proof -
  have "bdecode_rl 100 (nest_buffer 3) = Inr (VList [VList [VList [VList []]]], [])"
    "bdecode_rl 3 (nest_buffer 3) = Inl RuntimeError"
    by code_simp+
  with bdecode_depth_limit_is_the_interpreters [of 100 3] show ?thesis by simp
qed

subsection \<open>C10: the decoder is total and consumes input\<close>

text \<open>
  C10. \<open>bdecode\<close> is a total function (its termination is proved above, from
  the fact that every successful inner parse returns a shorter buffer): on every
  buffer it fails with an exception or succeeds with a value and a remainder, and
  on success the remainder is a proper suffix of the buffer.
\<close>

theorem bdecode_total_proper_suffix:
  "(\<exists>e. bdecode s = Inl e) \<or> (\<exists>v r p. bdecode s = Inr (v, r) \<and> p \<noteq> [] \<and> s = p @ r)"
proof (cases "bdecode s")
  case (Inl e)
  then show ?thesis by blast
next
  case (Inr vr)
  then obtain v r where "bdecode s = Inr (v, r)" by (cases vr) auto
  with bdecode_suffix(1) [of s] show ?thesis by blast
qed

end
